theory Spec2Isabelle
  imports Complex_Main "HOL-Library.Word" "HOL-Library.Signed_Division"
begin

section \<open>Machine integers of the engine\<close>

text \<open>
  The C++ type \<^verbatim>\<open>int\<close> is modelled as a 32-bit word and \<^verbatim>\<open>int16_t\<close> as a 16-bit word;
  \<open>sint\<close> reads the two's complement value. Integral promotion and narrowing are both
  \<open>scast\<close>. C++ division truncates towards zero, which is \<open>sdiv\<close> on \<open>int\<close>.
\<close>

type_synonym int32 = "32 word"
type_synonym int16 = "16 word"

definition sdiv_int32 :: "int32 \<Rightarrow> int32 \<Rightarrow> int32" where
  "sdiv_int32 a b = word_of_int (sint a sdiv sint b)"

definition abs_int32 :: "int32 \<Rightarrow> int32" where
  "abs_int32 x = (if x <s 0 then - x else x)"

datatype error = AssertionFailed | DivisionByZero | OutOfBounds | NotIndexable | NotFinite

section \<open>History table entries (search/history.h)\<close>

text \<open>
  \<^verbatim>\<open>HistTable<T, Range, Shape...>::Entry::operator<<(int bonus)\<close> for \<open>T = int16_t\<close>:
  \<^verbatim>\<open>assert(std::abs(bonus) <= Range);
  value += bonus - value * std::abs(bonus) / Range;
  assert(std::abs(value) <= Range);\<close>
  The template parameter \<open>Range\<close> is the first argument (\<open>RangeT\<close>, since \<open>Range\<close> is a
  constant of HOL). The right-hand side is computed in \<^verbatim>\<open>int\<close> and narrowed to
  \<^verbatim>\<open>int16_t\<close> by the compound assignment. A failed assertion and the division by a zero
  \<open>Range\<close> are error results.
\<close>

definition Entry_shl :: "int32 \<Rightarrow> int16 \<Rightarrow> int32 \<Rightarrow> error + int16" where
  "Entry_shl RangeT v bonus =
     (if \<not> abs_int32 bonus \<le>s RangeT then Inl AssertionFailed
      else if RangeT = 0 then Inl DivisionByZero
      else
        let v' = (scast (scast v + (bonus - sdiv_int32 (scast v * abs_int32 bonus) RangeT)) :: int16)
        in if abs_int32 (scast v') \<le>s RangeT then Inr v' else Inl AssertionFailed)"

text \<open>A finite sequence of \<^verbatim>\<open>entry << bonus\<close> statements on one entry, stopping at the first error.\<close>

fun Entry_shl_all :: "int32 \<Rightarrow> int16 \<Rightarrow> int32 list \<Rightarrow> error + int16" where
  "Entry_shl_all RangeT v [] = Inr v"
| "Entry_shl_all RangeT v (bonus # bs) =
     (case Entry_shl RangeT v bonus of Inl e \<Rightarrow> Inl e | Inr v' \<Rightarrow> Entry_shl_all RangeT v' bs)"

section \<open>Search parameters (search/ab/parameter.h)\<close>

text \<open>
  \<open>Value\<close> is an enumeration over \<^verbatim>\<open>int\<close>; its arithmetic is \<^verbatim>\<open>int\<close> arithmetic.
  \<^verbatim>\<open>constexpr Value nextAspirationWindowDelta(Value prevDelta = VALUE_ZERO)
  { return prevDelta ? prevDelta * 3 / 2 + 5 : Value(17); }\<close>
\<close>

type_synonym Value = int32

definition MARGIN_INFINITE :: Value where
  "MARGIN_INFINITE = 32767"

definition nextAspirationWindowDelta :: "Value \<Rightarrow> Value" where
  "nextAspirationWindowDelta prevDelta =
     (if prevDelta \<noteq> 0 then sdiv_int32 (prevDelta * 3) 2 + 5 else 17)"

text \<open>
  \<open>Depth\<close> is \<^verbatim>\<open>float\<close>; every finite \<^verbatim>\<open>float\<close> is a real number, so depths are modelled as
  reals and the theorems quantify over all of them. The conversion \<^verbatim>\<open>int(d)\<close> truncates towards
  zero; it is modelled on the unbounded integers, which agrees with C++ wherever the truncated
  value fits an \<^verbatim>\<open>int\<close> (search depths are bounded by \<open>MAX_DEPTH = 200\<close>).
\<close>

type_synonym Depth = real

definition MAX_DEPTH :: int where
  "MAX_DEPTH = 200"

definition int_of_Depth :: "Depth \<Rightarrow> int" where
  "int_of_Depth d = (if 0 \<le> d then \<lfloor>d\<rfloor> else \<lceil>d\<rceil>)"

text \<open>
  \<^verbatim>\<open>inline const auto FutilityMC = []() {
      std::array<int, MAX_MOVES + 1> MC {0};
      for (size_t i = 1; i < MC.size(); i++)
          MC[i] = 3 + int(std::pow(i, 1.4));
      return MC;
  }();\<close>
  \<open>MAX_MOVES\<close> is declared in core/types.h and is a parameter here. \<open>std::pow\<close> belongs to the
  C++ library: \<open>pow_1_4 i\<close> stands for \<^verbatim>\<open>int(std::pow(i, 1.4))\<close> and is a parameter as well.
  The entries of the table and the move counts are small numbers, far from the limits of
  \<^verbatim>\<open>int\<close>; they are modelled on the integers.
\<close>

function FutilityMC_loop :: "(nat \<Rightarrow> int) \<Rightarrow> nat \<Rightarrow> int list \<Rightarrow> int list" where
  "FutilityMC_loop pow_1_4 i MC =
     (if i < length MC then FutilityMC_loop pow_1_4 (Suc i) (MC[i := 3 + pow_1_4 i]) else MC)"
  by pat_completeness auto
termination
  by (relation "measure (\<lambda>(pow_1_4, i, MC). length MC - i)") auto

declare FutilityMC_loop.simps [simp del]

definition FutilityMC :: "nat \<Rightarrow> (nat \<Rightarrow> int) \<Rightarrow> int list" where
  "FutilityMC MAX_MOVES pow_1_4 = FutilityMC_loop pow_1_4 1 (replicate (MAX_MOVES + 1) 0)"

text \<open>
  \<^verbatim>\<open>constexpr int futilityMoveCount(Depth d, bool improving)
  { return FutilityMC[std::max(int(d), 0)] / (2 - improving); }\<close>
  Reading the array beyond its last element is an error result.
\<close>

definition futilityMoveCount :: "nat \<Rightarrow> (nat \<Rightarrow> int) \<Rightarrow> Depth \<Rightarrow> bool \<Rightarrow> error + int" where
  "futilityMoveCount MAX_MOVES pow_1_4 d improving =
     (let i = nat (max (int_of_Depth d) 0)
      in if i < length (FutilityMC MAX_MOVES pow_1_4)
         then Inr ((FutilityMC MAX_MOVES pow_1_4 ! i) sdiv (2 - of_bool improving))
         else Inl OutOfBounds)"

section \<open>History tables (search/history.h)\<close>

text \<open>
  \<^verbatim>\<open>template <typename T, int Range, int... Shape> struct HistTable\<close> holds
  \<^verbatim>\<open>MDNativeArray<Entry, Shape...> table\<close>. A table type is described by its value type \<open>T\<close>, its
  \<open>Range\<close> and its list of dimensions; a table whose list of dimensions is used up stands for a
  single \<open>Entry\<close> holding a \<open>T\<close>.
\<close>

datatype value_type = Int16 | PosPattern4Pair | Table hist_table
  and hist_table = HistTable (table_value: value_type) (table_range: int) (table_shape: "nat list")

text \<open>
  \<^verbatim>\<open>enum MoveHistoryType { HIST_ATTACK, HIST_QUIET, MOVE_HIST_TYPE_NB };
  enum Oppo4HistoryType { OPPO4_NO, OPPO4_YES, OPPO4_NB };\<close>
\<close>

definition HIST_ATTACK :: nat where "HIST_ATTACK = 0"
definition HIST_QUIET :: nat where "HIST_QUIET = 1"
definition MOVE_HIST_TYPE_NB :: nat where "MOVE_HIST_TYPE_NB = 2"

definition OPPO4_NO :: nat where "OPPO4_NO = 0"
definition OPPO4_YES :: nat where "OPPO4_YES = 1"
definition OPPO4_NB :: nat where "OPPO4_NB = 2"

text \<open>
  The four table types. \<open>SIDE_NB\<close>, \<open>FULL_BOARD_CELL_COUNT\<close> and \<open>MAX_MOVES\<close> are declared in
  core/types.h and core/pos.h and are parameters here.
  \<^verbatim>\<open>typedef HistTable<int16_t, 10692, SIDE_NB, FULL_BOARD_CELL_COUNT, MOVE_HIST_TYPE_NB> MainHistory;
  typedef HistTable<std::pair<Pos, Pattern4>, 0, SIDE_NB, MAX_MOVES> CounterMoveHistory;
  typedef HistTable<int16_t, 10692, FULL_BOARD_CELL_COUNT> MoveHistory;
  typedef HistTable<MoveHistory, 0, OPPO4_NB, FULL_BOARD_CELL_COUNT> ContinuationHistory;\<close>
\<close>

definition MainHistory :: "nat \<Rightarrow> nat \<Rightarrow> hist_table" where
  "MainHistory SIDE_NB FULL_BOARD_CELL_COUNT =
     HistTable Int16 10692 [SIDE_NB, FULL_BOARD_CELL_COUNT, MOVE_HIST_TYPE_NB]"

definition CounterMoveHistory :: "nat \<Rightarrow> nat \<Rightarrow> hist_table" where
  "CounterMoveHistory SIDE_NB MAX_MOVES = HistTable PosPattern4Pair 0 [SIDE_NB, MAX_MOVES]"

definition MoveHistory :: "nat \<Rightarrow> hist_table" where
  "MoveHistory FULL_BOARD_CELL_COUNT = HistTable Int16 10692 [FULL_BOARD_CELL_COUNT]"

definition ContinuationHistory :: "nat \<Rightarrow> hist_table" where
  "ContinuationHistory FULL_BOARD_CELL_COUNT =
     HistTable (Table (MoveHistory FULL_BOARD_CELL_COUNT)) 0 [OPPO4_NB, FULL_BOARD_CELL_COUNT]"

text \<open>
  \<^verbatim>\<open>auto &operator[](std::size_t index) { return table[index]; }\<close>
  One index strips the first dimension; on an entry that holds a table it indexes the held table
  (through the entry's conversion to \<open>T\<close>). An index beyond the dimension is an error result, and so
  is an index applied to an entry that holds no table.
\<close>

fun index_table :: "hist_table \<Rightarrow> nat \<Rightarrow> error + hist_table" where
  "index_table (HistTable T R (n # ns)) i = (if i < n then Inr (HistTable T R ns) else Inl OutOfBounds)"
| "index_table (HistTable (Table h) R []) i = index_table h i"
| "index_table (HistTable Int16 R []) i = Inl NotIndexable"
| "index_table (HistTable PosPattern4Pair R []) i = Inl NotIndexable"

fun index_all :: "hist_table \<Rightarrow> nat list \<Rightarrow> error + hist_table" where
  "index_all h [] = Inr h"
| "index_all h (i # is) = (case index_table h i of Inl e \<Rightarrow> Inl e | Inr h' \<Rightarrow> index_all h' is)"

text \<open>The table held by an entry, when the entry holds one.\<close>

fun held_table :: "hist_table \<Rightarrow> hist_table option" where
  "held_table (HistTable (Table h) R []) = Some h"
| "held_table _ = None"

section \<open>Mix8 evaluator (namespace \<open>Evaluation::mix8\<close>)\<close>

text \<open>
  The header of the mix8 evaluator declares the weights, the accumulator and the evaluator with
  its move cache. The records of this section follow those declarations. The bodies of
  \<open>clear\<close>, \<open>update\<close>, \<open>addCache\<close>, \<open>clearCache\<close>, \<open>beforeMove\<close> and \<open>afterUndo\<close> are defined in
  a source file that is not among the sources at hand; they are modelled from sections 3 and 4.3 of the
  specification, on the declared members and with the declared parameters.
  \<^verbatim>\<open>constexpr int ShapeNum = 708588; constexpr int PolicyDim = 32; constexpr int ValueDim = 96;
  constexpr int FeatureDim = std::max(PolicyDim, ValueDim); constexpr int FeatureDWConvDim = 32;\<close>
\<close>

definition ShapeNum :: nat where "ShapeNum = 708588"
definition PolicyDim :: nat where "PolicyDim = 32"
definition ValueDim :: nat where "ValueDim = 96"
definition FeatureDim :: nat where "FeatureDim = max PolicyDim ValueDim"
definition FeatureDWConvDim :: nat where "FeatureDWConvDim = 32"

text \<open>
  \<^verbatim>\<open>struct Mix8Weight {
      int16_t mapping[ShapeNum][FeatureDim];
      int16_t map_prelu_weight[FeatureDim];
      int16_t feature_dwconv_weight[9][FeatureDWConvDim];
      int16_t feature_dwconv_bias[FeatureDWConvDim];
      float value_sum_scale_after_conv;
      float value_sum_scale_direct;
      ... buckets[NumBuckets]; };\<close>
  An array is a function of its index; at an index outside the declared bounds, which the source
  must never form, the function is read all the same. The head buckets serve the evaluation only
  and are left out. \<open>Mix8WeightTwoSide\<close> holds one weight per side, a pair here.
\<close>

record Mix8Weight =
  mapping :: "nat \<Rightarrow> nat \<Rightarrow> int16"
  map_prelu_weight :: "nat \<Rightarrow> int16"
  feature_dwconv_weight :: "nat \<Rightarrow> nat \<Rightarrow> int16"
  feature_dwconv_bias :: "nat \<Rightarrow> int16"
  value_sum_scale_after_conv :: real
  value_sum_scale_direct :: real

type_synonym Mix8WeightTwoSide = "Mix8Weight \<times> Mix8Weight"

text \<open>
  Modelled from the spec: \<open>Color\<close> is declared in core/types.h, which is not among the sources at hand; a cell
  is empty or holds a stone of one of the two sides.
\<close>

datatype Color = BLACK | WHITE | EMPTY

type_synonym cell = "int \<times> int"

text \<open>
  \<^verbatim>\<open>class Mix8Accumulator {
      std::array<int32_t, ValueDim> valueSum;
      std::array<uint32_t, 4> *indexTable;                    // [H*W, 4]
      std::array<int16_t, FeatureDim> *mapSum;                // [H*W, MapDim]
      std::array<int16_t, FeatureDWConvDim> *mapAfterDWConv;  // [(H+2)*(W+2), DWConvDim]
      int boardSize; int fullBoardSize; float boardSizeScale; };\<close>
  The three tables are addressed by the coordinates of the cell; the cells of the border of
  \<open>mapAfterDWConv\<close> have a coordinate \<open>-1\<close> or \<open>boardSize\<close>.
\<close>

record Mix8Accumulator =
  valueSum :: "nat \<Rightarrow> int32"
  indexTable :: "cell \<Rightarrow> nat \<Rightarrow> 32 word"
  mapSum :: "cell \<Rightarrow> nat \<Rightarrow> int16"
  mapAfterDWConv :: "cell \<Rightarrow> nat \<Rightarrow> int16"
  boardSize :: int
  fullBoardSize :: int
  boardSizeScale :: real

text \<open>
  Modelled from the spec: what the update needs and neither the header nor the specification
  fixes. \<open>window\<close> is the radius of the line-shape feature window, \<open>shape_step c j\<close> the amount by
  which a stone of colour \<open>c\<close> at position \<open>j\<close> of a window changes the line-shape index of that
  window, \<open>empty_index\<close> the index table of the empty board of a given size (\<open>initIndexTable\<close>),
  and \<open>dwconv\<close> the kernel of the depthwise convolution: the output vector of one cell as a
  function of the weights and of the feature vectors of the nine cells around it.
\<close>

record mix8_kernels =
  window :: nat
  shape_step :: "Color \<Rightarrow> nat \<Rightarrow> 32 word"
  empty_index :: "int \<Rightarrow> cell \<Rightarrow> nat \<Rightarrow> 32 word"
  dwconv :: "Mix8Weight \<Rightarrow> (nat \<Rightarrow> int16) list \<Rightarrow> nat \<Rightarrow> int16"

text \<open>
  Modelled from the spec: a stone placed or removed at a cell affects the four line directions
  through that cell, up to the radius of the window. \<open>line_positions K p q d\<close> lists the positions
  that the cell \<open>p\<close> takes in the window of the cell \<open>q\<close> along the direction \<open>d\<close>; a cell is
  affected when it is on the board and \<open>p\<close> lies in one of its four windows.
\<close>

definition directions :: "cell list" where
  "directions = [(1, 0), (0, 1), (1, 1), (1, - 1)]"

definition on_board :: "int \<Rightarrow> cell \<Rightarrow> bool" where
  "on_board n q \<longleftrightarrow> 0 \<le> fst q \<and> fst q < n \<and> 0 \<le> snd q \<and> snd q < n"

definition line_positions :: "mix8_kernels \<Rightarrow> cell \<Rightarrow> cell \<Rightarrow> nat \<Rightarrow> nat list" where
  "line_positions K p q d =
     filter (\<lambda>j. p = (fst q + (int j - int (window K)) * fst (directions ! d),
                      snd q + (int j - int (window K)) * snd (directions ! d)))
            [0..<2 * window K + 1]"

definition affected :: "mix8_kernels \<Rightarrow> int \<Rightarrow> cell \<Rightarrow> cell \<Rightarrow> bool" where
  "affected K n p q \<longleftrightarrow> on_board n q \<and> list_ex (\<lambda>d. line_positions K p q d \<noteq> []) [0..<4]"

text \<open>
  Modelled from the spec: the neighbourhood of the convolution, and the convolution of a
  per-cell feature map at one cell.
\<close>

definition offsets9 :: "cell list" where
  "offsets9 = [(- 1, - 1), (- 1, 0), (- 1, 1), (0, - 1), (0, 0), (0, 1), (1, - 1), (1, 0), (1, 1)]"

definition refreshed :: "mix8_kernels \<Rightarrow> int \<Rightarrow> cell \<Rightarrow> cell \<Rightarrow> bool" where
  "refreshed K n p c \<longleftrightarrow> list_ex (\<lambda>off. affected K n p (fst c + fst off, snd c + snd off)) offsets9"

definition conv_at :: "mix8_kernels \<Rightarrow> Mix8Weight \<Rightarrow> (cell \<Rightarrow> nat \<Rightarrow> int16) \<Rightarrow> cell \<Rightarrow> nat \<Rightarrow> int16" where
  "conv_at K w m c = dwconv K w (map (\<lambda>off. m (fst c + fst off, snd c + snd off)) offsets9)"

definition board_cells :: "int \<Rightarrow> cell list" where
  "board_cells n = concat (map (\<lambda>x. map (\<lambda>y. (x, y)) [0..n - 1]) [0..n - 1])"

text \<open>
  \<^verbatim>\<open>enum UpdateType { MOVE, UNDO };
  template <UpdateType UT>
  void update(const Mix8Weight &w, Color pieceColor, int x, int y,
              std::array<int32_t, ValueDim> *valueSumBoardBackup);\<close>
  Modelled from the spec: the body, after section 4.3. Step 1 recomputes the line-shape index
  of every affected cell along the four directions (a move adds the step of the stone, an undo
  takes it away), looks up the feature vectors in the mapping table and folds the delta (new
  minus old feature) into the cell's entry of \<open>mapSum\<close> and into \<open>valueSum\<close>. Step 2 runs the
  depthwise convolution again on the neighbourhood of the affected cells. Step 3: everything else
  is left as it was. The declared last parameter keeps the value sum of the board before a move:
  a move stores it there, an undo restores \<open>valueSum\<close> from it. The result is the accumulator
  and the content of \<open>*valueSumBoardBackup\<close> after the call.
\<close>

datatype UpdateType = MOVE | UNDO

definition update ::
  "UpdateType \<Rightarrow> mix8_kernels \<Rightarrow> Mix8Weight \<Rightarrow> Color \<Rightarrow> int \<Rightarrow> int \<Rightarrow> (nat \<Rightarrow> int32)
     \<Rightarrow> Mix8Accumulator \<Rightarrow> Mix8Accumulator \<times> (nat \<Rightarrow> int32)" where
  "update UT K w pieceColor x y valueSumBoardBackup acc =
     (let n = boardSize acc;
          step = (\<lambda>q d. sum_list (map (shape_step K pieceColor) (line_positions K (x, y) q d)));
          indexTable' = (\<lambda>q d. if on_board n q
                                 then (case UT of MOVE \<Rightarrow> indexTable acc q d + step q d
                                                | UNDO \<Rightarrow> indexTable acc q d - step q d)
                                 else indexTable acc q d);
          delta = (\<lambda>q k. sum_list (map (\<lambda>d. mapping w (unat (indexTable' q d)) k
                                              - mapping w (unat (indexTable acc q d)) k) [0..<4]));
          mapSum' = (\<lambda>q k. mapSum acc q k + delta q k);
          valueSum' = (case UT of
                         MOVE \<Rightarrow> (\<lambda>k. if k < ValueDim
                                        then valueSum acc k + sum_list (map (\<lambda>q. scast (delta q k)) (board_cells n))
                                        else valueSum acc k)
                       | UNDO \<Rightarrow> valueSumBoardBackup);
          mapAfterDWConv' = (\<lambda>c. if refreshed K n (x, y) c then conv_at K w mapSum' c
                                   else mapAfterDWConv acc c)
      in (acc\<lparr>valueSum := valueSum', indexTable := indexTable', mapSum := mapSum',
               mapAfterDWConv := mapAfterDWConv'\<rparr>,
          case UT of MOVE \<Rightarrow> valueSum acc | UNDO \<Rightarrow> valueSumBoardBackup))"

text \<open>
  \<^verbatim>\<open>/// Init accumulator state to empty board.
  void clear(const Mix8Weight &w);\<close>
  Modelled from the spec: the body; the empty-board baseline of the three tables and of the value
  sum.
\<close>

definition clear :: "mix8_kernels \<Rightarrow> Mix8Weight \<Rightarrow> Mix8Accumulator \<Rightarrow> Mix8Accumulator" where
  "clear K w acc =
     (let n = boardSize acc;
          m = (\<lambda>q k. sum_list (map (\<lambda>d. mapping w (unat (empty_index K n q d)) k) [0..<4]))
      in acc\<lparr>valueSum := (\<lambda>k. if k < ValueDim then sum_list (map (\<lambda>q. scast (m q k)) (board_cells n)) else 0),
              indexTable := empty_index K n,
              mapSum := m,
              mapAfterDWConv := conv_at K w m\<rparr>)"

text \<open>
  Modelled from the spec: the states of an accumulator, the compositions of updates applied
  since the accumulator was cleared.
\<close>

inductive reachable :: "mix8_kernels \<Rightarrow> Mix8Weight \<Rightarrow> Mix8Accumulator \<Rightarrow> bool"
  for K :: mix8_kernels and w :: Mix8Weight where
  reachable_clear: "reachable K w (clear K w acc)"
| reachable_update: "reachable K w acc \<Longrightarrow> reachable K w (fst (update UT K w pieceColor x y backup acc))"

text \<open>
  \<^verbatim>\<open>struct MoveCache {
      Color oldColor, newColor;
      int8_t x, y;
      friend bool isContraryMove(MoveCache a, MoveCache b)
      {
          bool isSameCoord = a.x == b.x && a.y == b.y;
          bool isContrary  = a.oldColor == b.newColor && a.newColor == b.oldColor;
          return isSameCoord && isContrary;
      }
  };\<close>
  The members \<open>x\<close> and \<open>y\<close> are the fields \<open>cache_x\<close> and \<open>cache_y\<close>.
\<close>

type_synonym int8 = "8 word"

record MoveCache =
  oldColor :: Color
  newColor :: Color
  cache_x :: int8
  cache_y :: int8

definition isContraryMove :: "MoveCache \<Rightarrow> MoveCache \<Rightarrow> bool" where
  "isContraryMove a b =
     (let isSameCoord = (cache_x a = cache_x b \<and> cache_y a = cache_y b);
          isContrary = (oldColor a = newColor b \<and> newColor a = oldColor b)
      in isSameCoord \<and> isContrary)"

text \<open>
  \<^verbatim>\<open>class Mix8Evaluator : public Evaluator {
      Mix8WeightTwoSide *weight;
      std::unique_ptr<Mix8Accumulator> accumulator[2];
      std::vector<MoveCache> moveCache[2];
      std::vector<std::array<int32_t, ValueDim>> valueSumBoardHistory[2]; };\<close>
  An array over the two sides is a pair, black first; a vector is a list whose last element is
  its back.
\<close>

record Mix8Evaluator =
  weight :: Mix8WeightTwoSide
  accumulator :: "Mix8Accumulator \<times> Mix8Accumulator"
  moveCache :: "MoveCache list \<times> MoveCache list"
  valueSumBoardHistory :: "(nat \<Rightarrow> int32) list \<times> (nat \<Rightarrow> int32) list"

text \<open>
  \<^verbatim>\<open>/// Record new board action, but not update accumulator instantly.
  void addCache(Color side, int x, int y, bool isUndo);\<close>
  Modelled from the spec: the body. The new entry is the deferred board delta (previous colour,
  new colour, coordinates): a move turns an empty cell into a stone of the side, an undo turns it
  back. In each of the two caches an entry that is contrary to the back of the cache cancels with
  it and both are dropped; otherwise the entry is appended.
\<close>

definition push_or_cancel :: "MoveCache \<Rightarrow> MoveCache list \<Rightarrow> MoveCache list" where
  "push_or_cancel newCache cache =
     (if cache = [] \<or> \<not> isContraryMove newCache (last cache) then cache @ [newCache]
      else butlast cache)"

definition addCache :: "Color \<Rightarrow> int \<Rightarrow> int \<Rightarrow> bool \<Rightarrow> Mix8Evaluator \<Rightarrow> Mix8Evaluator" where
  "addCache side x y isUndo ev =
     (let newCache = \<lparr>oldColor = (if isUndo then side else EMPTY),
                       newColor = (if isUndo then EMPTY else side),
                       cache_x = word_of_int x, cache_y = word_of_int y\<rparr>
      in ev\<lparr>moveCache := (push_or_cancel newCache (fst (moveCache ev)),
                            push_or_cancel newCache (snd (moveCache ev)))\<rparr>)"

text \<open>
  \<^verbatim>\<open>void beforeMove(const Board &board, Pos pos);
  void afterUndo(const Board &board, Pos pos);\<close>
  Modelled from the spec: the bodies, and of \<open>Board\<close> and \<open>Pos\<close> (core/pos.h and the board are not
  among the sources at hand) the side to move and the two coordinates. \<open>beforeMove\<close> sees the board before the
  move and \<open>afterUndo\<close> the board after the move was taken back, so in both the side to move is
  the owner of the stone. Neither touches an accumulator.
\<close>

record Board =
  sideToMove :: Color

type_synonym Pos = "int \<times> int"

definition beforeMove :: "Board \<Rightarrow> Pos \<Rightarrow> Mix8Evaluator \<Rightarrow> Mix8Evaluator" where
  "beforeMove board pos ev = addCache (sideToMove board) (fst pos) (snd pos) False ev"

definition afterUndo :: "Board \<Rightarrow> Pos \<Rightarrow> Mix8Evaluator \<Rightarrow> Mix8Evaluator" where
  "afterUndo board pos ev = addCache (sideToMove board) (fst pos) (snd pos) True ev"

text \<open>
  Modelled from the spec: a cache in which no entry is contrary to its neighbour; recording
  entries never produces anything else.
\<close>

fun reduced :: "MoveCache list \<Rightarrow> bool" where
  "reduced [] = True"
| "reduced [a] = True"
| "reduced (a # b # cs) = (\<not> isContraryMove b a \<and> reduced (b # cs))"


text \<open>
  \<^verbatim>\<open>/// Clear all caches to sync accumulator state with current board state.
  void clearCache(Color side);\<close>
  Modelled from the spec: the body. The flush before an evaluation folds the entries of the cache
  of one side, oldest first, into the accumulator of that side and empties the cache. The
  colours are relative to the side: the accumulator of white sees the two colours exchanged. An
  entry that fills an empty cell is a move: the value sum that the update saves is pushed on
  \<open>valueSumBoardHistory\<close>; any other entry is an undo, which takes the saved value sum from the back
  of the history and pops it. An undo on an empty history and a side that is no side are error
  results.
\<close>

definition opponent :: "Color \<Rightarrow> Color" where
  "opponent c = (case c of BLACK \<Rightarrow> WHITE | WHITE \<Rightarrow> BLACK | EMPTY \<Rightarrow> EMPTY)"

definition side_relative :: "Color \<Rightarrow> MoveCache \<Rightarrow> MoveCache" where
  "side_relative side mc =
     (if side = WHITE then mc\<lparr>oldColor := opponent (oldColor mc), newColor := opponent (newColor mc)\<rparr>
      else mc)"

definition of_side :: "Color \<Rightarrow> 'a \<times> 'a \<Rightarrow> 'a" where
  "of_side side pair = (if side = BLACK then fst pair else snd pair)"

definition set_side :: "Color \<Rightarrow> 'a \<Rightarrow> 'a \<times> 'a \<Rightarrow> 'a \<times> 'a" where
  "set_side side v pair = (if side = BLACK then (v, snd pair) else (fst pair, v))"

fun sync ::
  "mix8_kernels \<Rightarrow> Mix8Weight \<Rightarrow> MoveCache list \<Rightarrow> Mix8Accumulator \<times> (nat \<Rightarrow> int32) list
     \<Rightarrow> error + Mix8Accumulator \<times> (nat \<Rightarrow> int32) list" where
  "sync K w [] state = Inr state"
| "sync K w (mc # mcs) (acc, history) =
     (if oldColor mc = EMPTY
      then (let moved = update MOVE K w (newColor mc) (sint (cache_x mc)) (sint (cache_y mc)) (\<lambda>k. 0) acc
            in sync K w mcs (fst moved, history @ [snd moved]))
      else if history = [] then Inl OutOfBounds
      else (let undone = update UNDO K w (oldColor mc) (sint (cache_x mc)) (sint (cache_y mc)) (last history) acc
            in sync K w mcs (fst undone, butlast history)))"

definition clearCache :: "mix8_kernels \<Rightarrow> Color \<Rightarrow> Mix8Evaluator \<Rightarrow> error + Mix8Evaluator" where
  "clearCache K side ev =
     (if side = EMPTY then Inl OutOfBounds
      else case sync K (of_side side (weight ev)) (map (side_relative side) (of_side side (moveCache ev)))
                  (of_side side (accumulator ev), of_side side (valueSumBoardHistory ev)) of
             Inl e \<Rightarrow> Inl e
           | Inr (acc, history) \<Rightarrow>
               Inr (ev\<lparr>accumulator := set_side side acc (accumulator ev),
                       moveCache := set_side side [] (moveCache ev),
                       valueSumBoardHistory := set_side side history (valueSumBoardHistory ev)\<rparr>))"

text \<open>
  Modelled from the spec: the invariant of an accumulator that the convolved map is the
  convolution of the per-cell feature map.
\<close>

definition conv_consistent :: "mix8_kernels \<Rightarrow> Mix8Weight \<Rightarrow> Mix8Accumulator \<Rightarrow> bool" where
  "conv_consistent K w acc \<longleftrightarrow> (\<forall>c. mapAfterDWConv acc c = conv_at K w (mapSum acc) c)"


text \<open>
  A small instance: a window of radius one, base-three steps for the two colours, a convolution
  that adds the bias to the weighted sum of the nine inputs, on an empty board of three by three
  cells.
\<close>

definition tiny_kernels :: mix8_kernels where
  "tiny_kernels =
     \<lparr>window = 1,
      shape_step = (\<lambda>c j. case c of BLACK \<Rightarrow> 3 ^ j | WHITE \<Rightarrow> 2 * 3 ^ j | EMPTY \<Rightarrow> 0),
      empty_index = (\<lambda>n q d. 0),
      dwconv = (\<lambda>w inputs k. feature_dwconv_bias w k
                  + sum_list (map (\<lambda>i. feature_dwconv_weight w i k * (inputs ! i) k) [0..<9]))\<rparr>"

definition tiny_weight :: Mix8Weight where
  "tiny_weight =
     \<lparr>mapping = (\<lambda>shape k. word_of_int (int shape + int k)),
      map_prelu_weight = (\<lambda>k. 0),
      feature_dwconv_weight = (\<lambda>i k. 1),
      feature_dwconv_bias = (\<lambda>k. 0),
      value_sum_scale_after_conv = 1,
      value_sum_scale_direct = 1\<rparr>"

definition tiny_accumulator :: Mix8Accumulator where
  "tiny_accumulator =
     clear tiny_kernels tiny_weight
       \<lparr>valueSum = (\<lambda>k. 0), indexTable = (\<lambda>q d. 0), mapSum = (\<lambda>q k. 0), mapAfterDWConv = (\<lambda>c k. 0),
        boardSize = 3, fullBoardSize = 5, boardSizeScale = 1\<rparr>"

definition tiny_evaluator :: Mix8Evaluator where
  "tiny_evaluator =
     \<lparr>weight = (tiny_weight, tiny_weight),
      accumulator = (tiny_accumulator, tiny_accumulator),
      moveCache = ([], []),
      valueSumBoardHistory = ([], [])\<rparr>"


section \<open>Single-precision arithmetic\<close>

text \<open>
  A \<^verbatim>\<open>float\<close> operation computes the exact real result and rounds it to the nearest binary32
  value, ties to even. \<open>f32\<close> is that rounding: a binary32 value is an integer multiple of
  \<open>2 ^ e\<close>, where \<open>e\<close> is 23 below the binary exponent of the number and never below \<open>-149\<close> (the
  subnormal numbers). Overflow to infinity is not modelled: \<open>f32\<close> is the rounding of the numbers
  of magnitude below \<open>2 ^ 128\<close>.
\<close>

definition round_even :: "real \<Rightarrow> int" where
  "round_even x =
     (let n = \<lfloor>x\<rfloor>; f = x - of_int n
      in if f < 1 / 2 then n else if 1 / 2 < f then n + 1 else if even n then n else n + 1)"

definition ulp_exponent :: "real \<Rightarrow> int" where
  "ulp_exponent x = max (\<lfloor>log 2 \<bar>x\<bar>\<rfloor> - 23) (- 149)"

definition f32 :: "real \<Rightarrow> real" where
  "f32 x =
     (if x = 0 then 0
      else of_int (round_even (x / 2 powr of_int (ulp_exponent x))) * 2 powr of_int (ulp_exponent x))"

section \<open>Search parameters in \<^verbatim>\<open>float\<close> arithmetic (search/ab/parameter.h)\<close>

text \<open>
  \<^verbatim>\<open>constexpr Value razorMargin(Depth d)
  {
      return d < 3.36f ? static_cast<Value>(std::max(int(0.125f * d * d + 46 * d) + 49, 0))
                       : MARGIN_INFINITE;
  }\<close>
  The literals \<^verbatim>\<open>3.36f\<close> and \<^verbatim>\<open>0.125f\<close> are the binary32 values nearest to 3.36 and 0.125, the
  integer 46 is converted to \<^verbatim>\<open>float\<close>, and each product and the sum are rounded.
\<close>

definition razorMargin :: "Depth \<Rightarrow> Value" where
  "razorMargin d =
     (if d < f32 3.36
      then word_of_int (max (int_of_Depth (f32 (f32 (f32 (f32 0.125 * d) * d) + f32 (f32 46 * d))) + 49) 0)
      else MARGIN_INFINITE)"

text \<open>
  \<^verbatim>\<open>template <bool PvNode>
  constexpr Depth reduction(const std::array<Depth, MAX_MOVES + 1> &lut, Depth d, int moveCount,
                            int improvement, Value delta, Value rootDelta)
  {
      assert(d > 0.0f);
      assert(moveCount > 0 && moveCount < lut.size());
      Depth r = lut[(int)d] * lut[moveCount];
      if constexpr (PvNode)
          return std::max(r - Depth(delta) / Depth(rootDelta), 0.0f);
      else
          return r + (improvement <= 0 && r > 1.0f);
  }\<close>
  The template parameter is the first argument. A failed assertion and a read beyond the table
  are error results. A division by a zero \<open>rootDelta\<close> leaves the finite numbers, which are all
  that \<open>Depth\<close> models, and is an error result too.
\<close>

definition reduction ::
  "bool \<Rightarrow> Depth list \<Rightarrow> Depth \<Rightarrow> int \<Rightarrow> int \<Rightarrow> Value \<Rightarrow> Value \<Rightarrow> error + Depth" where
  "reduction PvNode lut d moveCount improvement delta rootDelta =
     (if \<not> 0 < d then Inl AssertionFailed
      else if \<not> (0 < moveCount \<and> moveCount < int (length lut)) then Inl AssertionFailed
      else if \<not> nat (int_of_Depth d) < length lut then Inl OutOfBounds
      else
        let r = f32 (lut ! nat (int_of_Depth d) * lut ! nat moveCount)
        in if PvNode
           then (if rootDelta = 0 then Inl NotFinite
                 else Inr (max (f32 (r - f32 (f32 (of_int (sint delta)) / f32 (of_int (sint rootDelta))))) 0))
           else Inr (f32 (r + (if improvement \<le> 0 \<and> 1 < r then 1 else 0))))"

section \<open>Facts about the machine arithmetic\<close>

lemma sint_in32: "- (2^31) \<le> k \<Longrightarrow> k < 2^31 \<Longrightarrow> sint (word_of_int k :: int32) = k"
  by (simp add: sint_sbintrunc' signed_take_bit_int_eq_self)

lemma sint_in16: "- (2^15) \<le> k \<Longrightarrow> k < 2^15 \<Longrightarrow> sint (word_of_int k :: int16) = k"
  by (simp add: sint_sbintrunc' signed_take_bit_int_eq_self)

lemma sint_add32: "- (2^31) \<le> sint a + sint b \<Longrightarrow> sint a + sint b < 2^31 \<Longrightarrow> sint (a + b :: int32) = sint a + sint b"
  by (simp add: sint_word_add signed_take_bit_int_eq_self)

lemma sint_sub32: "- (2^31) \<le> sint a - sint b \<Longrightarrow> sint a - sint b < 2^31 \<Longrightarrow> sint (a - b :: int32) = sint a - sint b"
  by (simp add: sint_word_ariths signed_take_bit_int_eq_self)

lemma sint_mult32: "- (2^31) \<le> sint a * sint b \<Longrightarrow> sint a * sint b < 2^31 \<Longrightarrow> sint (a * b :: int32) = sint a * sint b"
  by (simp add: sint_word_mult signed_take_bit_int_eq_self)

lemma sint_abs32: "- (2^31) < sint a \<Longrightarrow> sint (abs_int32 a) = \<bar>sint a\<bar>"
  using sint_lt[of a]
  by (simp add: abs_int32_def word_sless_alt sint_word_ariths signed_take_bit_int_eq_self)


lemma sdiv_pos_pos: "0 \<le> k \<Longrightarrow> 0 < l \<Longrightarrow> (k::int) sdiv l = k div l"
  by (cases "k = 0") (simp_all add: signed_divide_int_def)

lemma sdiv_neg_pos: "k \<le> 0 \<Longrightarrow> 0 < l \<Longrightarrow> (k::int) sdiv l = - ((- k) div l)"
  by (cases "k = 0") (simp_all add: signed_divide_int_def)

lemma quot_bounds:
  fixes a c R :: int
  assumes "0 \<le> a" "a \<le> R" "0 \<le> c" "c \<le> R" "0 < R"
  shows "a * c div R \<le> a" and "a + c - R \<le> a * c div R" and "0 \<le> a * c div R"
proof -
  have "a * c \<le> a * R" using assms by (simp add: mult_left_mono)
  then have "a * c div R \<le> a * R div R" by (rule zdiv_mono1) (use assms in simp)
  then show "a * c div R \<le> a" using assms by simp
  have "0 \<le> (R - a) * (R - c)" using assms by simp
  then have "(a + c - R) * R \<le> a * c" by (simp add: algebra_simps)
  then have "(a + c - R) * R div R \<le> a * c div R" by (rule zdiv_mono1) (use assms in simp)
  then show "a + c - R \<le> a * c div R" using assms by simp
  show "0 \<le> a * c div R" using assms by (simp add: pos_imp_zdiv_nonneg_iff)
qed

lemma hist_step_bound:
  fixes v b R :: int
  assumes R: "0 < R" and v: "\<bar>v\<bar> \<le> R" and b: "\<bar>b\<bar> \<le> R"
  shows "\<bar>v + b - (v * \<bar>b\<bar>) sdiv R\<bar> \<le> R"
proof (cases "0 \<le> v")
  case True
  then have q: "(v * \<bar>b\<bar>) sdiv R = v * \<bar>b\<bar> div R" using R by (simp add: sdiv_pos_pos)
  from quot_bounds[of v R "\<bar>b\<bar>"] True v b R
  have "v * \<bar>b\<bar> div R \<le> v" "v + \<bar>b\<bar> - R \<le> v * \<bar>b\<bar> div R" "0 \<le> v * \<bar>b\<bar> div R" by simp_all
  with q v b True show ?thesis by (cases "0 \<le> b") simp_all
next
  case False
  then have le: "v * \<bar>b\<bar> \<le> 0" by (simp add: mult_le_0_iff)
  have q: "(v * \<bar>b\<bar>) sdiv R = - ((- v) * \<bar>b\<bar> div R)" using R le by (simp add: sdiv_neg_pos)
  from quot_bounds[of "- v" R "\<bar>b\<bar>"] False v b R
  have "(- v) * \<bar>b\<bar> div R \<le> - v" "- v + \<bar>b\<bar> - R \<le> (- v) * \<bar>b\<bar> div R" "0 \<le> (- v) * \<bar>b\<bar> div R" by simp_all
  with q v b False show ?thesis by (cases "0 \<le> b") simp_all
qed

lemma abs_sdiv_le:
  fixes k l :: int
  assumes "0 < l"
  shows "\<bar>k sdiv l\<bar> \<le> \<bar>k\<bar>"
proof -
  have *: "0 \<le> m \<Longrightarrow> m div l \<le> m \<and> 0 \<le> m div l" for m
    using zdiv_mono2[of m 1 l] assms by (simp add: pos_imp_zdiv_nonneg_iff)
  show ?thesis
  proof (cases "0 \<le> k")
    case True
    with *[of k] assms show ?thesis by (simp add: sdiv_pos_pos)
  next
    case False
    with *[of "- k"] assms show ?thesis by (simp add: sdiv_neg_pos)
  qed
qed

lemma sint_widen: "sint (scast (v :: int16) :: int32) = sint v"
  by (simp add: sint_up_scast is_up)

lemma sint_narrow: "- (2^15) \<le> sint w \<Longrightarrow> sint w < 2^15 \<Longrightarrow> sint (scast (w :: int32) :: int16) = sint w"
  unfolding scast_eq by (rule sint_in16)


lemma abs_le_range:
  fixes x y :: int
  shows "\<bar>x\<bar> \<le> \<bar>y\<bar> \<Longrightarrow> - N < y \<Longrightarrow> y < N \<Longrightarrow> - N \<le> x \<and> x < N"
  by linarith

lemma sint_sdiv32:
  assumes "0 < sint b" and "- (2^31) < sint a"
  shows "sint (sdiv_int32 a b) = sint a sdiv sint b"
proof -
  have "\<bar>sint a sdiv sint b\<bar> \<le> \<bar>sint a\<bar>" using assms(1) by (rule abs_sdiv_le)
  moreover have "sint a < 2^31"
    using sint_lt[of a] by simp
  ultimately have "- (2^31) \<le> sint a sdiv sint b \<and> sint a sdiv sint b < 2^31"
    using assms(2) by (intro abs_le_range)
  then show ?thesis unfolding sdiv_int32_def by (intro sint_in32) simp_all
qed

lemma Entry_shl_step:
  assumes R: "0 < sint RangeT" "sint RangeT \<le> 32767"
    and v: "\<bar>sint v\<bar> \<le> sint RangeT" and b: "\<bar>sint bonus\<bar> \<le> sint RangeT"
  shows "\<exists>v'. Entry_shl RangeT v bonus = Inr v'
          \<and> sint v' = sint v + sint bonus - (sint v * \<bar>sint bonus\<bar>) sdiv sint RangeT
          \<and> \<bar>sint v'\<bar> \<le> sint RangeT"
proof -
  define r where "r = sint RangeT"
  define q where "q = (sint v * \<bar>sint bonus\<bar>) sdiv r"
  define n where "n = sint v + sint bonus - q"
  have r: "0 < r" "r \<le> 32767" "\<bar>sint v\<bar> \<le> r" "\<bar>sint bonus\<bar> \<le> r"
    using assms by (simp_all add: r_def)
  have ab: "sint (abs_int32 bonus) = \<bar>sint bonus\<bar>"
    by (rule sint_abs32) (use r in simp)
  have prod_bd: "\<bar>sint v * \<bar>sint bonus\<bar>\<bar> \<le> 32767 * 32767"
  proof -
    have "\<bar>sint v\<bar> * \<bar>sint bonus\<bar> \<le> 32767 * 32767"
      by (rule mult_mono) (use r in linarith)+
    then show ?thesis by (simp add: abs_mult)
  qed
  have pr: "sint (scast v * abs_int32 bonus :: int32) = sint v * \<bar>sint bonus\<bar>"
    using prod_bd by (subst sint_mult32) (simp_all add: sint_widen ab)
  have qd: "sint (sdiv_int32 (scast v * abs_int32 bonus) RangeT) = q"
    using r prod_bd by (subst sint_sdiv32) (simp_all add: pr q_def r_def)
  have qb: "\<bar>q\<bar> \<le> \<bar>sint v\<bar> * \<bar>sint bonus\<bar>"
    using abs_sdiv_le[of r "sint v * \<bar>sint bonus\<bar>"] r by (simp add: q_def abs_mult)
  have qb': "\<bar>q\<bar> \<le> 32767 * 32767" using qb prod_bd by (simp add: abs_mult)
  have nb: "\<bar>n\<bar> \<le> r" unfolding n_def q_def using r by (intro hist_step_bound) simp_all
  have sb: "sint (bonus - sdiv_int32 (scast v * abs_int32 bonus) RangeT) = sint bonus - q"
    by (subst sint_sub32) (use qb' r in \<open>simp_all add: qd\<close>)
  have sm: "sint (scast v + (bonus - sdiv_int32 (scast v * abs_int32 bonus) RangeT) :: int32) = n"
    unfolding n_def
    by (subst sint_add32) (use qb' r nb in \<open>simp_all add: sb sint_widen n_def\<close>)
  define v' :: int16 where "v' = scast (scast v + (bonus - sdiv_int32 (scast v * abs_int32 bonus) RangeT) :: int32)"
  have sv': "sint v' = n"
    unfolding v'_def by (subst sint_narrow) (use sm nb r in simp_all)
  have ab': "sint (abs_int32 (scast v')) = \<bar>n\<bar>"
    by (subst sint_abs32) (use nb r in \<open>simp_all add: sint_widen sv'\<close>)
  have nz: "RangeT \<noteq> 0" using R by auto
  have "Entry_shl RangeT v bonus = Inr v'"
    using nb r nz by (simp add: Entry_shl_def Let_def word_sle_eq ab ab' v'_def[symmetric] r_def)
  then show ?thesis using sv' nb by (simp add: n_def q_def r_def)
qed

lemma sdiv_mult_self:
  fixes k l :: int
  assumes "0 < l"
  shows "(k * l) sdiv l = k"
proof (cases "0 \<le> k")
  case True
  then show ?thesis using assms by (simp add: sdiv_pos_pos)
next
  case False
  then have "k * l \<le> 0" using assms by (simp add: mult_le_0_iff)
  then have "(k * l) sdiv l = - ((- (k * l)) div l)" using assms by (rule sdiv_neg_pos)
  also have "- (k * l) = (- k) * l" by simp
  also have "(- k) * l div l = - k"
    using nonzero_mult_div_cancel_right[of l "- k"] assms by simp
  finally show ?thesis by simp
qed

section \<open>History entries stay in range\<close>

text \<open>
  Claim C1. For a history table over \<^verbatim>\<open>int16_t\<close> whose \<open>Range\<close> is positive and passes the
  \<^verbatim>\<open>static_assert\<close> (\<open>Range \<le> 32767\<close>): for every entry value \<open>v\<close> and bonus \<open>b\<close> with
  \<open>\<bar>v\<bar> \<le> Range\<close> and \<open>\<bar>b\<bar> \<le> Range\<close>, \<^verbatim>\<open>operator<<\<close> passes both assertions and stores
  \<open>v + b - v * \<bar>b\<bar> / Range\<close> (division truncated towards zero, no intermediate overflow and no
  loss in the narrowing), and the stored value again satisfies \<open>\<bar>value\<bar> \<le> Range\<close>. Hence every
  finite sequence of updates with valid bonuses, started on a zero entry, runs without error and
  ends in a value with \<open>\<bar>value\<bar> \<le> Range\<close>.
\<close>

theorem Entry_shl_range_invariant:
  assumes R: "0 < sint RangeT" "sint RangeT \<le> 32767"
  shows "(\<forall>(v :: int16) (bonus :: int32). \<bar>sint v\<bar> \<le> sint RangeT \<and> \<bar>sint bonus\<bar> \<le> sint RangeT \<longrightarrow>
            (\<exists>v'. Entry_shl RangeT v bonus = Inr v'
                \<and> sint v' = sint v + sint bonus - (sint v * \<bar>sint bonus\<bar>) sdiv sint RangeT
                \<and> \<bar>sint v'\<bar> \<le> sint RangeT))
       \<and> (\<forall>bs. (\<forall>bonus \<in> set bs. \<bar>sint bonus\<bar> \<le> sint RangeT) \<longrightarrow>
            (\<exists>v'. Entry_shl_all RangeT 0 bs = Inr v' \<and> \<bar>sint v'\<bar> \<le> sint RangeT))"
proof (intro conjI allI impI)
  fix v :: int16 and bonus :: int32
  assume "\<bar>sint v\<bar> \<le> sint RangeT \<and> \<bar>sint bonus\<bar> \<le> sint RangeT"
  then show "\<exists>v'. Entry_shl RangeT v bonus = Inr v'
                \<and> sint v' = sint v + sint bonus - (sint v * \<bar>sint bonus\<bar>) sdiv sint RangeT
                \<and> \<bar>sint v'\<bar> \<le> sint RangeT"
    using Entry_shl_step[OF R] by blast
next
  fix bs :: "int32 list"
  assume bs: "\<forall>bonus \<in> set bs. \<bar>sint bonus\<bar> \<le> sint RangeT"
  have "\<bar>sint v\<bar> \<le> sint RangeT \<Longrightarrow> \<exists>v'. Entry_shl_all RangeT v bs = Inr v' \<and> \<bar>sint v'\<bar> \<le> sint RangeT" for v
    using bs
  proof (induction bs arbitrary: v)
    case Nil
    then show ?case by simp
  next
    case (Cons b bs)
    from Entry_shl_step[OF R Cons.prems(1), of b] Cons.prems(2)
    obtain w where w: "Entry_shl RangeT v b = Inr w" "\<bar>sint w\<bar> \<le> sint RangeT" by auto
    from Cons.IH[OF w(2)] Cons.prems(2) w(1) show ?case by simp
  qed
  from this[of 0] R show "\<exists>v'. Entry_shl_all RangeT 0 bs = Inr v' \<and> \<bar>sint v'\<bar> \<le> sint RangeT"
    by simp
qed

theorem Entry_shl_range_invariant_witness:
  "0 < sint (10692 :: int32) \<and> sint (10692 :: int32) \<le> 32767
   \<and> \<bar>sint (100 :: int16)\<bar> \<le> sint (10692 :: int32) \<and> \<bar>sint (- 5000 :: int32)\<bar> \<le> sint (10692 :: int32)
   \<and> (\<exists>v'. Entry_shl 10692 100 (- 5000) = Inr v' \<and> sint v' = - 4946 \<and> \<bar>sint v'\<bar> \<le> 10692)
   \<and> (\<exists>v'. Entry_shl_all 10692 0 [10692, - 10692, 5000] = Inr v' \<and> \<bar>sint v'\<bar> \<le> 10692)"
proof -
  have R: "0 < sint (10692 :: int32)" "sint (10692 :: int32) \<le> 32767" by simp_all
  have a: "\<bar>sint (100 :: int16)\<bar> \<le> sint (10692 :: int32) \<and> \<bar>sint (- 5000 :: int32)\<bar> \<le> sint (10692 :: int32)"
    by simp
  have b: "\<forall>bonus \<in> set [10692, - 10692, 5000 :: int32]. \<bar>sint bonus\<bar> \<le> sint (10692 :: int32)"
    by simp
  from Entry_shl_range_invariant[OF R] a b
  have "(\<exists>v'. Entry_shl 10692 100 (- 5000) = Inr v'
                \<and> sint v' = sint (100 :: int16) + sint (- 5000 :: int32) - (sint (100 :: int16) * \<bar>sint (- 5000 :: int32)\<bar>) sdiv sint (10692 :: int32)
                \<and> \<bar>sint v'\<bar> \<le> sint (10692 :: int32))"
     and "(\<exists>v'. Entry_shl_all 10692 0 [10692, - 10692, 5000] = Inr v' \<and> \<bar>sint v'\<bar> \<le> sint (10692 :: int32))"
    by blast+
  then show ?thesis using R a by (simp add: signed_divide_int_def)
qed

text \<open>
  Claim C10. Under the same conditions on \<open>Range\<close>, the bonus \<open>+Range\<close> sets every in-range entry to
  exactly \<open>+Range\<close> and the bonus \<open>-Range\<close> sets it to exactly \<open>-Range\<close>, whatever the previous
  value was.
\<close>

theorem Entry_shl_extreme_bonus:
  assumes R: "0 < sint RangeT" "sint RangeT \<le> 32767" and v: "\<bar>sint v\<bar> \<le> sint RangeT"
  shows "(\<exists>v'. Entry_shl RangeT v RangeT = Inr v' \<and> sint v' = sint RangeT)
       \<and> (\<exists>v'. Entry_shl RangeT v (- RangeT) = Inr v' \<and> sint v' = - sint RangeT)"
proof -
  have neg: "sint (- RangeT) = - sint RangeT"
    using R by (simp add: sint_word_ariths signed_take_bit_int_eq_self)
  have abs1: "\<bar>sint RangeT\<bar> = sint RangeT" using R by simp
  have q: "(sint v * sint RangeT) sdiv sint RangeT = sint v"
    using R(1) by (rule sdiv_mult_self)
  from Entry_shl_step[OF R v, of RangeT] abs1 q
  have 1: "\<exists>v'. Entry_shl RangeT v RangeT = Inr v' \<and> sint v' = sint RangeT" by auto
  from Entry_shl_step[OF R v, of "- RangeT"] abs1 q neg
  have 2: "\<exists>v'. Entry_shl RangeT v (- RangeT) = Inr v' \<and> sint v' = - sint RangeT" by auto
  from 1 2 show ?thesis by blast
qed

theorem Entry_shl_extreme_bonus_witness:
  "0 < sint (10692 :: int32) \<and> sint (10692 :: int32) \<le> 32767 \<and> \<bar>sint (- 777 :: int16)\<bar> \<le> sint (10692 :: int32)
   \<and> (\<exists>v'. Entry_shl 10692 (- 777) 10692 = Inr v' \<and> sint v' = 10692)
   \<and> (\<exists>v'. Entry_shl 10692 (- 777) (- 10692) = Inr v' \<and> sint v' = - 10692)"
proof -
  have R: "0 < sint (10692 :: int32)" "sint (10692 :: int32) \<le> 32767"
    and v: "\<bar>sint (- 777 :: int16)\<bar> \<le> sint (10692 :: int32)" by simp_all
  from Entry_shl_extreme_bonus[OF R v] R v show ?thesis by simp
qed

section \<open>Aspiration window\<close>

lemma nextAspirationWindowDelta_sint:
  assumes nz: "prevDelta \<noteq> 0"
    and lo: "- 715827882 \<le> sint prevDelta" and hi: "sint prevDelta \<le> 715827882"
  shows "sint (nextAspirationWindowDelta prevDelta) = (sint prevDelta * 3) sdiv 2 + 5"
proof -
  have m: "sint (prevDelta * 3) = sint prevDelta * 3"
    by (subst sint_mult32) (use lo hi in simp_all)
  have "\<bar>(sint prevDelta * 3) sdiv 2\<bar> \<le> \<bar>sint prevDelta * 3\<bar>"
    by (rule abs_sdiv_le) simp
  then have qb: "- 2147483646 \<le> (sint prevDelta * 3) sdiv 2" "(sint prevDelta * 3) sdiv 2 \<le> 2147483646"
    using lo hi by linarith+
  have d: "sint (sdiv_int32 (prevDelta * 3) 2) = (sint prevDelta * 3) sdiv 2"
    by (subst sint_sdiv32) (use lo hi in \<open>simp_all add: m\<close>)
  have hi2: "(sint prevDelta * 3) sdiv 2 \<le> 1073741823"
  proof (cases "0 \<le> sint prevDelta")
    case True
    then show ?thesis using hi by (simp add: sdiv_pos_pos)
  next
    case False
    then have "(sint prevDelta * 3) sdiv 2 = - ((- (sint prevDelta * 3)) div 2)"
      by (intro sdiv_neg_pos) simp_all
    then show ?thesis using False by simp
  qed
  have "sint (sdiv_int32 (prevDelta * 3) 2 + 5) = (sint prevDelta * 3) sdiv 2 + 5"
    by (subst sint_add32) (use qb hi2 in \<open>simp_all add: d\<close>)
  then show ?thesis using nz by (simp add: nextAspirationWindowDelta_def)
qed

text \<open>
  Claim C3. \<open>nextAspirationWindowDelta 0 = 17\<close> and \<open>nextAspirationWindowDelta 17 = 30\<close>; for every
  nonzero previous delta \<open>p\<close> the result is the \<^verbatim>\<open>int\<close> expression \<open>p * 3 / 2 + 5\<close>, and as long as
  \<open>p * 3\<close> does not leave the range of \<^verbatim>\<open>int\<close> its value is the integer \<open>p * 3\<close> divided by 2
  with truncation towards zero, plus 5.
\<close>

theorem nextAspirationWindowDelta_spec:
  "nextAspirationWindowDelta 0 = 17
   \<and> nextAspirationWindowDelta 17 = 30
   \<and> (\<forall>p. p \<noteq> 0 \<longrightarrow> nextAspirationWindowDelta p = sdiv_int32 (p * 3) 2 + 5)
   \<and> (\<forall>p. p \<noteq> 0 \<and> - 715827882 \<le> sint p \<and> sint p \<le> 715827882 \<longrightarrow>
         sint (nextAspirationWindowDelta p) = (sint p * 3) sdiv 2 + 5)"
proof (intro conjI allI impI)
  show "nextAspirationWindowDelta 0 = 17"
    by (simp add: nextAspirationWindowDelta_def)
  show "nextAspirationWindowDelta 17 = 30"
    by (simp add: nextAspirationWindowDelta_def sdiv_int32_def signed_divide_int_def)
  show "nextAspirationWindowDelta p = sdiv_int32 (p * 3) 2 + 5" if "p \<noteq> 0" for p
    using that by (simp add: nextAspirationWindowDelta_def)
  show "sint (nextAspirationWindowDelta p) = (sint p * 3) sdiv 2 + 5"
    if "p \<noteq> 0 \<and> - 715827882 \<le> sint p \<and> sint p \<le> 715827882" for p
    using that by (intro nextAspirationWindowDelta_sint) simp_all
qed

theorem nextAspirationWindowDelta_spec_witness:
  "(- 7 :: Value) \<noteq> 0 \<and> - 715827882 \<le> sint (- 7 :: Value) \<and> sint (- 7 :: Value) \<le> 715827882
   \<and> nextAspirationWindowDelta (- 7) = sdiv_int32 (- 7 * 3) 2 + 5
   \<and> sint (nextAspirationWindowDelta (- 7)) = - 5"
proof -
  have h: "(- 7 :: Value) \<noteq> 0 \<and> - 715827882 \<le> sint (- 7 :: Value) \<and> sint (- 7 :: Value) \<le> 715827882"
    by simp
  from nextAspirationWindowDelta_spec h
  have "nextAspirationWindowDelta (- 7) = sdiv_int32 (- 7 * 3) 2 + 5"
    and "sint (nextAspirationWindowDelta (- 7)) = (sint (- 7 :: Value) * 3) sdiv 2 + 5"
    by blast+
  then show ?thesis using h by (simp add: signed_divide_int_def)
qed

text \<open>
  Claim C9. For every previous delta \<open>p \<ge> 1\<close> (with \<open>p * 3\<close> in the range of \<^verbatim>\<open>int\<close>),
  \<open>nextAspirationWindowDelta p \<ge> p + 5\<close>; in particular the half-width strictly increases.
\<close>

theorem nextAspirationWindowDelta_grows:
  assumes "1 \<le> sint p" and "sint p \<le> 715827882"
  shows "sint p + 5 \<le> sint (nextAspirationWindowDelta p) \<and> p <s nextAspirationWindowDelta p"
proof -
  have nz: "p \<noteq> 0" using assms(1) by auto
  have s: "sint (nextAspirationWindowDelta p) = (sint p * 3) sdiv 2 + 5"
    using nz assms by (intro nextAspirationWindowDelta_sint) simp_all
  have "(sint p * 3) sdiv 2 = sint p * 3 div 2"
    using assms(1) by (intro sdiv_pos_pos) simp_all
  moreover have "sint p \<le> sint p * 3 div 2" using assms(1) by simp
  ultimately have "sint p + 5 \<le> sint (nextAspirationWindowDelta p)" using s by simp
  then show ?thesis by (simp add: word_sless_alt)
qed

theorem nextAspirationWindowDelta_grows_witness:
  "1 \<le> sint (1 :: Value) \<and> sint (1 :: Value) \<le> 715827882
   \<and> sint (1 :: Value) + 5 \<le> sint (nextAspirationWindowDelta 1) \<and> 1 <s nextAspirationWindowDelta 1"
proof -
  have h: "1 \<le> sint (1 :: Value)" "sint (1 :: Value) \<le> 715827882" by simp_all
  from nextAspirationWindowDelta_grows[OF h] h show ?thesis by simp
qed

section \<open>Move-count pruning table\<close>

lemma FutilityMC_loop_length [simp]: "length (FutilityMC_loop pw i MC) = length MC"
  by (induction pw i MC rule: FutilityMC_loop.induct) (subst FutilityMC_loop.simps, simp)

lemma FutilityMC_loop_nth:
  "j < length MC \<Longrightarrow> FutilityMC_loop pw i MC ! j = (if j < i then MC ! j else 3 + pw j)"
proof (induction pw i MC rule: FutilityMC_loop.induct)
  case (1 pw i MC)
  show ?case
  proof (cases "i < length MC")
    case True
    with 1 show ?thesis
      by (subst FutilityMC_loop.simps) (auto simp: nth_list_update less_Suc_eq)
  next
    case False
    with 1 show ?thesis by (subst FutilityMC_loop.simps) simp
  qed
qed

lemma FutilityMC_length: "length (FutilityMC M pw) = M + 1"
  by (simp add: FutilityMC_def)

lemma FutilityMC_nth: "i \<le> M \<Longrightarrow> FutilityMC M pw ! i = (if i = 0 then 0 else 3 + pw i)"
  by (simp add: FutilityMC_def FutilityMC_loop_nth)

lemma int_of_Depth_mono:
  assumes "d1 \<le> d2"
  shows "int_of_Depth d1 \<le> int_of_Depth d2"
proof (cases "0 \<le> d1")
  case True
  with assms show ?thesis by (simp add: int_of_Depth_def floor_mono)
next
  case False
  then have n: "\<lceil>d1\<rceil> \<le> 0" by (simp add: ceiling_le_iff)
  show ?thesis
  proof (cases "0 \<le> d2")
    case True
    then have "0 \<le> \<lfloor>d2\<rfloor>" by simp
    with n have "\<lceil>d1\<rceil> \<le> \<lfloor>d2\<rfloor>" by (rule order_trans)
    with True False show ?thesis by (simp only: int_of_Depth_def if_True if_False)
  next
    case d2: False
    with False assms show ?thesis by (simp add: int_of_Depth_def ceiling_mono)
  qed
qed

lemma int_of_Depth_lt_one: "d < 1 \<Longrightarrow> int_of_Depth d \<le> 0"
  unfolding int_of_Depth_def by (auto simp: floor_le_iff ceiling_le_iff)

text \<open>
  Claim C8. For every depth \<open>d < 1\<close>, negative depths included, and every \<open>improving\<close> flag,
  \<open>futilityMoveCount\<close> returns 0: the index \<open>max(int(d), 0)\<close> is 0 and the table's entry 0 is the
  0 of the initialiser, not \<open>3 + pow(0, 1.4)\<close>. This holds for every table size and whatever
  \<open>std::pow\<close> returns.
\<close>

theorem futilityMoveCount_below_one:
  "d < 1 \<Longrightarrow>
     futilityMoveCount MAX_MOVES pow_1_4 d improving = Inr 0
     \<and> max (int_of_Depth d) 0 = 0
     \<and> FutilityMC MAX_MOVES pow_1_4 ! 0 = 0"
  using int_of_Depth_lt_one[of d]
  by (simp add: futilityMoveCount_def FutilityMC_length FutilityMC_nth max_def)


lemma FutilityMC_nonneg:
  assumes "\<forall>i. 1 \<le> i \<and> i \<le> M \<longrightarrow> 0 \<le> pw i" and "i \<le> M"
  shows "0 \<le> FutilityMC M pw ! i"
  using assms by (simp add: FutilityMC_nth)

lemma FutilityMC_mono:
  assumes nn: "\<forall>i. 1 \<le> i \<and> i \<le> M \<longrightarrow> 0 \<le> pw i"
    and mono: "\<forall>i j. 1 \<le> i \<and> i \<le> j \<and> j \<le> M \<longrightarrow> pw i \<le> pw j"
    and "i \<le> j" "j \<le> M"
  shows "FutilityMC M pw ! i \<le> FutilityMC M pw ! j"
proof (cases "i = 0")
  case True
  then show ?thesis using FutilityMC_nonneg[OF nn assms(4)] assms by (simp add: FutilityMC_nth)
next
  case False
  then have "1 \<le> i \<and> i \<le> j \<and> j \<le> M" using assms by simp
  with mono have "pw i \<le> pw j" by blast
  with False assms show ?thesis by (simp add: FutilityMC_nth)
qed

lemma depth_index_mono:
  "d1 \<le> d2 \<Longrightarrow> nat (max (int_of_Depth d1) 0) \<le> nat (max (int_of_Depth d2) 0)"
  using int_of_Depth_mono[of d1 d2] by simp

lemma depth_index_le:
  "int_of_Depth d \<le> int M \<Longrightarrow> nat (max (int_of_Depth d) 0) \<le> M"
  by (auto simp: max_def nat_le_iff)

lemma sdiv_by_flag:
  fixes a :: int
  assumes "0 \<le> a"
  shows "a sdiv (2 - of_bool improving) = (if improving then a else a div 2)"
  using assms by (simp add: sdiv_pos_pos)

text \<open>The exact power \<open>i\<^sup>1\<^sup>.\<^sup>4\<close>, truncated, is one function with the two properties asked of \<open>pow_1_4\<close>.\<close>

lemma pow_1_4_exact:
  "0 \<le> \<lfloor>real i powr (14 / 10)\<rfloor>"
  "i \<le> j \<Longrightarrow> \<lfloor>real i powr (14 / 10)\<rfloor> \<le> \<lfloor>real j powr (14 / 10)\<rfloor>"
  by (simp_all add: floor_mono powr_mono2)

text \<open>
  Claim C4. Let \<^verbatim>\<open>int(std::pow(i, 1.4))\<close> be non-negative and non-decreasing in \<open>i\<close> on
  \<open>1..MAX_MOVES\<close>. Then for every fixed \<open>improving\<close> flag \<open>futilityMoveCount\<close> is non-decreasing
  in the depth, as long as the larger depth still indexes inside the table, and for every such
  depth the value with \<open>improving = true\<close> is at least the value with \<open>improving = false\<close>.
\<close>

theorem futilityMoveCount_monotone:
  assumes nn: "\<forall>i. 1 \<le> i \<and> i \<le> MAX_MOVES \<longrightarrow> 0 \<le> pow_1_4 i"
    and mono: "\<forall>i j. 1 \<le> i \<and> i \<le> j \<and> j \<le> MAX_MOVES \<longrightarrow> pow_1_4 i \<le> pow_1_4 j"
  shows "(\<forall>improving d1 d2. d1 \<le> d2 \<and> int_of_Depth d2 \<le> int MAX_MOVES \<longrightarrow>
            (\<exists>m1 m2. futilityMoveCount MAX_MOVES pow_1_4 d1 improving = Inr m1
                  \<and> futilityMoveCount MAX_MOVES pow_1_4 d2 improving = Inr m2 \<and> m1 \<le> m2))
       \<and> (\<forall>d. int_of_Depth d \<le> int MAX_MOVES \<longrightarrow>
            (\<exists>m0 m1. futilityMoveCount MAX_MOVES pow_1_4 d False = Inr m0
                  \<and> futilityMoveCount MAX_MOVES pow_1_4 d True = Inr m1 \<and> m0 \<le> m1))"
proof (intro conjI allI impI)
  fix improving d1 d2
  assume h: "d1 \<le> d2 \<and> int_of_Depth d2 \<le> int MAX_MOVES"
  define i1 where "i1 = nat (max (int_of_Depth d1) 0)"
  define i2 where "i2 = nat (max (int_of_Depth d2) 0)"
  have le: "i1 \<le> i2" unfolding i1_def i2_def using h by (intro depth_index_mono) simp
  have i2: "i2 \<le> MAX_MOVES" unfolding i2_def using h by (intro depth_index_le) simp
  have i1: "i1 \<le> MAX_MOVES" using le i2 by simp
  have m: "FutilityMC MAX_MOVES pow_1_4 ! i1 \<le> FutilityMC MAX_MOVES pow_1_4 ! i2"
    using nn mono le i2 by (rule FutilityMC_mono)
  have n1: "0 \<le> FutilityMC MAX_MOVES pow_1_4 ! i1" using nn i1 by (rule FutilityMC_nonneg)
  have n2: "0 \<le> FutilityMC MAX_MOVES pow_1_4 ! i2" using nn i2 by (rule FutilityMC_nonneg)
  have "FutilityMC MAX_MOVES pow_1_4 ! i1 sdiv (2 - of_bool improving)
        \<le> FutilityMC MAX_MOVES pow_1_4 ! i2 sdiv (2 - of_bool improving)"
    using m n1 n2 by (simp add: sdiv_by_flag zdiv_mono1)
  then show "\<exists>m1 m2. futilityMoveCount MAX_MOVES pow_1_4 d1 improving = Inr m1
                  \<and> futilityMoveCount MAX_MOVES pow_1_4 d2 improving = Inr m2 \<and> m1 \<le> m2"
    using i1 i2
    by (simp add: futilityMoveCount_def Let_def FutilityMC_length i1_def[symmetric] i2_def[symmetric])
next
  fix d
  assume h: "int_of_Depth d \<le> int MAX_MOVES"
  define i where "i = nat (max (int_of_Depth d) 0)"
  have i: "i \<le> MAX_MOVES" unfolding i_def using h by (rule depth_index_le)
  have n: "0 \<le> FutilityMC MAX_MOVES pow_1_4 ! i" using nn i by (rule FutilityMC_nonneg)
  have "FutilityMC MAX_MOVES pow_1_4 ! i sdiv (2 - of_bool False)
        \<le> FutilityMC MAX_MOVES pow_1_4 ! i sdiv (2 - of_bool True)"
    using n by (simp add: sdiv_pos_pos)
  then show "\<exists>m0 m1. futilityMoveCount MAX_MOVES pow_1_4 d False = Inr m0
                  \<and> futilityMoveCount MAX_MOVES pow_1_4 d True = Inr m1 \<and> m0 \<le> m1"
    using i by (simp add: futilityMoveCount_def Let_def FutilityMC_length i_def[symmetric])
qed


theorem futilityMoveCount_below_one_witness:
  "((- 5 / 2 :: Depth) < 1 \<and> futilityMoveCount 4 (\<lambda>i. [0, 1, 2, 4, 6] ! i) (- 5 / 2) True = Inr 0)
   \<and> ((1 / 2 :: Depth) < 1 \<and> futilityMoveCount 4 (\<lambda>i. [0, 1, 2, 4, 6] ! i) (1 / 2) False = Inr 0)"
proof -
  have a: "(- 5 / 2 :: Depth) < 1" and b: "(1 / 2 :: Depth) < 1" by simp_all
  have A: "futilityMoveCount 4 (\<lambda>i. [0, 1, 2, 4, 6] ! i) (- 5 / 2) True = Inr 0"
    using futilityMoveCount_below_one[OF a] by (rule conjunct1)
  have B: "futilityMoveCount 4 (\<lambda>i. [0, 1, 2, 4, 6] ! i) (1 / 2) False = Inr 0"
    using futilityMoveCount_below_one[OF b] by (rule conjunct1)
  show ?thesis by (rule conjI[OF conjI[OF a A] conjI[OF b B]])
qed

lemma FutilityMC_example: "FutilityMC 4 (\<lambda>i. [0, 1, 2, 4, 6] ! i) = [0, 4, 5, 7, 9]"
  by (simp add: FutilityMC_def FutilityMC_loop.simps numeral_eq_Suc)

theorem futilityMoveCount_monotone_witness:
  "((3 / 2 :: Depth) \<le> 7 / 2 \<and> int_of_Depth (7 / 2) \<le> int 4)
   \<and> (\<exists>m1 m2. futilityMoveCount 4 (\<lambda>i. [0, 1, 2, 4, 6] ! i) (3 / 2) False = Inr m1
         \<and> futilityMoveCount 4 (\<lambda>i. [0, 1, 2, 4, 6] ! i) (7 / 2) False = Inr m2 \<and> m1 \<le> m2)
   \<and> (\<exists>m0 m1. futilityMoveCount 4 (\<lambda>i. [0, 1, 2, 4, 6] ! i) (7 / 2) False = Inr m0
         \<and> futilityMoveCount 4 (\<lambda>i. [0, 1, 2, 4, 6] ! i) (7 / 2) True = Inr m1 \<and> m0 \<le> m1)
   \<and> (futilityMoveCount 4 (\<lambda>i. [0, 1, 2, 4, 6] ! i) (3 / 2) False = Inr 2
      \<and> futilityMoveCount 4 (\<lambda>i. [0, 1, 2, 4, 6] ! i) (7 / 2) False = Inr 3
      \<and> futilityMoveCount 4 (\<lambda>i. [0, 1, 2, 4, 6] ! i) (7 / 2) True = Inr 7)"
proof -
  have cases4: "i = 1 \<or> i = 2 \<or> i = 3 \<or> i = 4" if "1 \<le> i \<and> i \<le> (4::nat)" for i
    using that by auto
  have nn: "\<forall>i. 1 \<le> i \<and> i \<le> (4::nat) \<longrightarrow> 0 \<le> [0, 1, 2, 4, 6 :: int] ! i"
    using cases4 by fastforce
  have mono: "\<forall>i j. 1 \<le> i \<and> i \<le> j \<and> j \<le> (4::nat) \<longrightarrow> [0, 1, 2, 4, 6 :: int] ! i \<le> [0, 1, 2, 4, 6] ! j"
  proof (intro allI impI)
    fix i j :: nat
    assume h: "1 \<le> i \<and> i \<le> j \<and> j \<le> 4"
    then have "i = 1 \<or> i = 2 \<or> i = 3 \<or> i = 4" "j = 1 \<or> j = 2 \<or> j = 3 \<or> j = 4"
      by (auto intro: cases4)
    with h show "[0, 1, 2, 4, 6 :: int] ! i \<le> [0, 1, 2, 4, 6] ! j" by auto
  qed
  have d: "(3 / 2 :: Depth) \<le> 7 / 2 \<and> int_of_Depth (7 / 2) \<le> int 4"
    by (simp add: int_of_Depth_def)
  have d': "int_of_Depth (7 / 2) \<le> int 4" using d by simp
  note inst = futilityMoveCount_monotone[OF nn mono]
  have A: "\<exists>m1 m2. futilityMoveCount 4 (\<lambda>i. [0, 1, 2, 4, 6] ! i) (3 / 2) False = Inr m1
         \<and> futilityMoveCount 4 (\<lambda>i. [0, 1, 2, 4, 6] ! i) (7 / 2) False = Inr m2 \<and> m1 \<le> m2"
    using inst d by blast
  have B: "\<exists>m0 m1. futilityMoveCount 4 (\<lambda>i. [0, 1, 2, 4, 6] ! i) (7 / 2) False = Inr m0
         \<and> futilityMoveCount 4 (\<lambda>i. [0, 1, 2, 4, 6] ! i) (7 / 2) True = Inr m1 \<and> m0 \<le> m1"
    using inst d' by blast
  have C: "futilityMoveCount 4 (\<lambda>i. [0, 1, 2, 4, 6] ! i) (3 / 2) False = Inr 2
      \<and> futilityMoveCount 4 (\<lambda>i. [0, 1, 2, 4, 6] ! i) (7 / 2) False = Inr 3
      \<and> futilityMoveCount 4 (\<lambda>i. [0, 1, 2, 4, 6] ! i) (7 / 2) True = Inr 7"
    by (simp add: futilityMoveCount_def FutilityMC_example int_of_Depth_def signed_divide_int_def)
  show ?thesis by (rule conjI[OF d conjI[OF A conjI[OF B C]]])
qed

section \<open>Shape of the continuation history\<close>

text \<open>
  Claim C6, as amended. \<open>ContinuationHistory\<close> is indexed first by the opponent-four flag
  (\<open>OPPO4_NB\<close> values) and then by the previous move's cell; these two indices yield an entry that
  holds a \<open>MoveHistory\<close>: a one-dimensional table over the current move's cell, whose entries are
  \<^verbatim>\<open>int16_t\<close> with range 10692. It has the value type and the range of \<open>MainHistory\<close>, not its
  side \<open>\<times>\<close> cell \<open>\<times>\<close> move-history-type shape. A third index, the current move's cell, reaches
  the \<^verbatim>\<open>int16_t\<close> entry.
\<close>

theorem ContinuationHistory_subtable:
  assumes "oppo4 < OPPO4_NB" and "prev < FULL_BOARD_CELL_COUNT"
  shows "index_all (ContinuationHistory FULL_BOARD_CELL_COUNT) [oppo4, prev]
           = Inr (HistTable (Table (MoveHistory FULL_BOARD_CELL_COUNT)) 0 [])
       \<and> held_table (HistTable (Table (MoveHistory FULL_BOARD_CELL_COUNT)) 0 [])
           = Some (MoveHistory FULL_BOARD_CELL_COUNT)
       \<and> table_shape (MoveHistory FULL_BOARD_CELL_COUNT) = [FULL_BOARD_CELL_COUNT]
       \<and> table_value (MoveHistory FULL_BOARD_CELL_COUNT) = table_value (MainHistory SIDE_NB FULL_BOARD_CELL_COUNT)
       \<and> table_range (MoveHistory FULL_BOARD_CELL_COUNT) = 10692
       \<and> table_range (MainHistory SIDE_NB FULL_BOARD_CELL_COUNT) = 10692
       \<and> table_shape (MainHistory SIDE_NB FULL_BOARD_CELL_COUNT) = [SIDE_NB, FULL_BOARD_CELL_COUNT, MOVE_HIST_TYPE_NB]
       \<and> (\<forall>cur < FULL_BOARD_CELL_COUNT.
            index_all (ContinuationHistory FULL_BOARD_CELL_COUNT) [oppo4, prev, cur]
              = Inr (HistTable Int16 10692 []))"
  using assms by (simp add: ContinuationHistory_def MoveHistory_def MainHistory_def)

theorem ContinuationHistory_subtable_witness:
  "index_all (ContinuationHistory 1024) [OPPO4_YES, 17]
           = Inr (HistTable (Table (MoveHistory 1024)) 0 [])
   \<and> index_all (ContinuationHistory 1024) [OPPO4_YES, 17, 1023] = Inr (HistTable Int16 10692 [])"
proof -
  have h: "OPPO4_YES < OPPO4_NB" "(17::nat) < 1024" by (simp_all add: OPPO4_YES_def OPPO4_NB_def)
  from ContinuationHistory_subtable[OF h] show ?thesis by simp
qed

text \<open>
  Claim C6 as stated fails: with two sides and 1024 cells, the table reached through the flag and
  the previous move's cell has the single dimension \<open>[1024]\<close>, while \<open>MainHistory\<close> has the
  dimensions \<open>[2, 1024, 2]\<close>.
\<close>

theorem ContinuationHistory_not_MainHistory_shaped:
  "index_all (ContinuationHistory 1024) [OPPO4_NO, 0] = Inr (HistTable (Table (MoveHistory 1024)) 0 [])
   \<and> held_table (HistTable (Table (MoveHistory 1024)) 0 []) = Some (MoveHistory 1024)
   \<and> table_shape (MoveHistory 1024) = [1024]
   \<and> table_shape (MainHistory 2 1024) = [2, 1024, 2]
   \<and> table_shape (MoveHistory 1024) \<noteq> table_shape (MainHistory 2 1024)"
  by (simp add: ContinuationHistory_def MoveHistory_def MainHistory_def OPPO4_NO_def OPPO4_NB_def
      MOVE_HIST_TYPE_NB_def)

section \<open>Make and undo on the mix8 evaluator\<close>

lemma isContraryMove_sym: "isContraryMove a b = isContraryMove b a"
  by (auto simp: isContraryMove_def)

lemma isContraryMove_unique:
  fixes a b c :: MoveCache
  assumes "isContraryMove a b" and "isContraryMove a c"
  shows "b = c"
  using assms by (simp add: isContraryMove_def)

lemma reduced_snoc2: "reduced (cs @ [a, b]) \<Longrightarrow> \<not> isContraryMove b a"
  by (induction cs rule: reduced.induct) auto

lemma reduced_snoc: "reduced cs \<Longrightarrow> cs = [] \<or> \<not> isContraryMove e (last cs) \<Longrightarrow> reduced (cs @ [e])"
  by (induction cs rule: reduced.induct) auto

lemma reduced_butlast: "reduced cs \<Longrightarrow> reduced (butlast cs)"
  by (induction cs rule: reduced.induct) auto

lemma push_or_cancel_reduced: "reduced cs \<Longrightarrow> reduced (push_or_cancel e cs)"
  by (auto simp: push_or_cancel_def reduced_snoc reduced_butlast)

lemma push_or_cancel_pair:
  fixes e e' :: MoveCache
  assumes contrary: "isContraryMove e' e" and red: "reduced cs"
  shows "push_or_cancel e' (push_or_cancel e cs) = cs"
proof (cases "cs = [] \<or> \<not> isContraryMove e (last cs)")
  case True
  then have "push_or_cancel e cs = cs @ [e]" by (simp add: push_or_cancel_def)
  then show ?thesis using contrary by (simp add: push_or_cancel_def)
next
  case False
  then have ne: "cs \<noteq> []" and c: "isContraryMove e (last cs)" by simp_all
  have l: "last cs = e'"
    using c contrary by (intro isContraryMove_unique[of e]) (simp_all add: isContraryMove_sym)
  have p: "push_or_cancel e cs = butlast cs" using False by (simp add: push_or_cancel_def)
  have cs: "cs = butlast cs @ [e']" using ne l by (metis append_butlast_last_id)
  show ?thesis
  proof (cases "butlast cs = []")
    case True
    have one: "cs = [e']" using cs True by simp
    have "push_or_cancel e' (push_or_cancel e cs) = push_or_cancel e' (butlast cs)"
      by (simp only: p)
    also have "\<dots> = [e']" using True by (simp add: push_or_cancel_def)
    also have "\<dots> = cs" by (rule one[symmetric])
    finally show ?thesis .
  next
    case False
    then have "butlast cs = butlast (butlast cs) @ [last (butlast cs)]" by simp
    then have "cs = butlast (butlast cs) @ [last (butlast cs), e']" using cs by (metis append.assoc append_Cons append_Nil)
    then have "reduced (butlast (butlast cs) @ [last (butlast cs), e'])" using red by simp
    then have "\<not> isContraryMove e' (last (butlast cs))" by (rule reduced_snoc2)
    then have app: "push_or_cancel e' (butlast cs) = butlast cs @ [e']"
      by (simp add: push_or_cancel_def)
    have "push_or_cancel e' (push_or_cancel e cs) = push_or_cancel e' (butlast cs)"
      by (simp only: p)
    also have "\<dots> = butlast cs @ [e']" by (rule app)
    also have "\<dots> = cs" by (rule cs[symmetric])
    finally show ?thesis .
  qed
qed

lemma notify_roundtrip:
  assumes "reduced (fst (moveCache ev))" and "reduced (snd (moveCache ev))"
  shows "afterUndo board pos (beforeMove board pos ev) = ev"
proof -
  have c: "isContraryMove
             \<lparr>oldColor = sideToMove board, newColor = EMPTY,
              cache_x = word_of_int (fst pos), cache_y = word_of_int (snd pos)\<rparr>
             \<lparr>oldColor = EMPTY, newColor = sideToMove board,
              cache_x = word_of_int (fst pos), cache_y = word_of_int (snd pos)\<rparr>"
    by (simp add: isContraryMove_def)
  show ?thesis
    using assms
    by (simp add: afterUndo_def beforeMove_def addCache_def Let_def push_or_cancel_pair[OF c])
qed


lemma sum_list_diff_cancel:
  fixes f g :: "'a \<Rightarrow> 'b::ab_group_add"
  shows "sum_list (map (\<lambda>d. f d - g d) ds) + sum_list (map (\<lambda>d. g d - f d) ds) = 0"
  by (induction ds) (simp_all add: algebra_simps)

lemma update_boardSize [simp]:
  "boardSize (fst (update UT K w pieceColor x y b acc)) = boardSize acc"
  "fullBoardSize (fst (update UT K w pieceColor x y b acc)) = fullBoardSize acc"
  "boardSizeScale (fst (update UT K w pieceColor x y b acc)) = boardSizeScale acc"
  by (simp_all add: update_def Let_def)

lemma update_indexTable:
  "indexTable (fst (update UT K w pieceColor x y b acc)) =
     (\<lambda>q d. if on_board (boardSize acc) q
            then (case UT of
                    MOVE \<Rightarrow> indexTable acc q d
                            + sum_list (map (shape_step K pieceColor) (line_positions K (x, y) q d))
                  | UNDO \<Rightarrow> indexTable acc q d
                            - sum_list (map (shape_step K pieceColor) (line_positions K (x, y) q d)))
            else indexTable acc q d)"
  by (simp add: update_def Let_def)

lemma update_mapSum:
  "mapSum (fst (update UT K w pieceColor x y b acc)) =
     (\<lambda>q k. mapSum acc q k
            + sum_list (map (\<lambda>d. mapping w (unat (indexTable (fst (update UT K w pieceColor x y b acc)) q d)) k
                                 - mapping w (unat (indexTable acc q d)) k) [0..<4]))"
  by (simp add: update_def Let_def)

lemma update_mapAfterDWConv:
  "mapAfterDWConv (fst (update UT K w pieceColor x y b acc)) =
     (\<lambda>c. if refreshed K (boardSize acc) (x, y) c
          then conv_at K w (mapSum (fst (update UT K w pieceColor x y b acc))) c
          else mapAfterDWConv acc c)"
  by (simp add: update_def Let_def cong: if_cong)

lemma update_valueSum_MOVE: "snd (update MOVE K w pieceColor x y b acc) = valueSum acc"
  by (simp add: update_def Let_def)

lemma update_valueSum_UNDO: "valueSum (fst (update UNDO K w pieceColor x y b acc)) = b"
  by (simp add: update_def Let_def)

lemma move_undo_indexTable:
  "indexTable (fst (update UNDO K w pieceColor x y b' (fst (update MOVE K w pieceColor x y b acc))))
     = indexTable acc"
  by (simp add: update_indexTable fun_eq_iff)

lemma move_undo_mapSum:
  "mapSum (fst (update UNDO K w pieceColor x y b' (fst (update MOVE K w pieceColor x y b acc))))
     = mapSum acc"
proof (intro ext)
  fix q k
  define acc1 where "acc1 = fst (update MOVE K w pieceColor x y b acc)"
  define acc2 where "acc2 = fst (update UNDO K w pieceColor x y b' acc1)"
  have i2: "indexTable acc2 = indexTable acc"
    unfolding acc2_def acc1_def by (rule move_undo_indexTable)
  have "mapSum acc2 q k = mapSum acc1 q k
          + sum_list (map (\<lambda>d. mapping w (unat (indexTable acc q d)) k
                               - mapping w (unat (indexTable acc1 q d)) k) [0..<4])"
    unfolding acc2_def by (subst update_mapSum) (simp only: acc2_def[symmetric] i2)
  moreover have "mapSum acc1 q k = mapSum acc q k
          + sum_list (map (\<lambda>d. mapping w (unat (indexTable acc1 q d)) k
                               - mapping w (unat (indexTable acc q d)) k) [0..<4])"
    unfolding acc1_def by (subst update_mapSum) simp
  ultimately have "mapSum acc2 q k = mapSum acc q k
          + (sum_list (map (\<lambda>d. mapping w (unat (indexTable acc1 q d)) k
                               - mapping w (unat (indexTable acc q d)) k) [0..<4])
             + sum_list (map (\<lambda>d. mapping w (unat (indexTable acc q d)) k
                               - mapping w (unat (indexTable acc1 q d)) k) [0..<4]))"
    by (simp only: add.assoc)
  then show "mapSum (fst (update UNDO K w pieceColor x y b' (fst (update MOVE K w pieceColor x y b acc)))) q k
             = mapSum acc q k"
    by (simp only: sum_list_diff_cancel acc2_def acc1_def) simp
qed


lemma update_mapSum_unaffected:
  assumes "\<not> affected K (boardSize acc) (x, y) q"
  shows "mapSum (fst (update UT K w pieceColor x y b acc)) q = mapSum acc q"
proof -
  have same: "indexTable (fst (update UT K w pieceColor x y b acc)) q d = indexTable acc q d"
    if "d < 4" for d
  proof (cases "on_board (boardSize acc) q")
    case False
    then show ?thesis by (simp add: update_indexTable)
  next
    case True
    with assms that have "line_positions K (x, y) q d = []"
      by (auto simp: affected_def list_ex_iff)
    then show ?thesis by (cases UT) (simp_all add: update_indexTable)
  qed
  have "sum_list (map (\<lambda>d. mapping w (unat (indexTable (fst (update UT K w pieceColor x y b acc)) q d)) k
                            - mapping w (unat (indexTable acc q d)) k) [0..<4]) = 0" for k
  proof -
    have "map (\<lambda>d. mapping w (unat (indexTable (fst (update UT K w pieceColor x y b acc)) q d)) k
                            - mapping w (unat (indexTable acc q d)) k) [0..<4]
          = map (\<lambda>d. 0) [0..<4]"
      by (rule map_cong) (simp_all add: same)
    then have "sum_list (map (\<lambda>d. mapping w (unat (indexTable (fst (update UT K w pieceColor x y b acc)) q d)) k
                            - mapping w (unat (indexTable acc q d)) k) [0..<4])
               = sum_list (map (\<lambda>d. 0 :: int16) [0..<4])"
      by (rule arg_cong[where f = sum_list])
    also have "\<dots> = 0" by simp
    finally show ?thesis .
  qed
  then show ?thesis by (subst update_mapSum) (simp add: fun_eq_iff)
qed

lemma conv_at_cong:
  assumes "\<And>off. off \<in> set offsets9 \<Longrightarrow> m (fst c + fst off, snd c + snd off) = m' (fst c + fst off, snd c + snd off)"
  shows "conv_at K w m c = conv_at K w m' c"
proof -
  have "map (\<lambda>off. m (fst c + fst off, snd c + snd off)) offsets9
        = map (\<lambda>off. m' (fst c + fst off, snd c + snd off)) offsets9"
    by (rule map_cong) (simp_all add: assms)
  then show ?thesis unfolding conv_at_def by (simp only:)
qed

lemma conv_consistentD: "conv_consistent K w acc \<Longrightarrow> mapAfterDWConv acc c = conv_at K w (mapSum acc) c"
  unfolding conv_consistent_def by (rule spec)

lemma clear_consistent: "conv_consistent K w (clear K w acc)"
  by (simp add: conv_consistent_def clear_def Let_def)

lemma update_consistent:
  assumes "conv_consistent K w acc"
  shows "conv_consistent K w (fst (update UT K w pieceColor x y b acc))"
  unfolding conv_consistent_def
proof
  fix c
  define acc' where "acc' = fst (update UT K w pieceColor x y b acc)"
  show "mapAfterDWConv (fst (update UT K w pieceColor x y b acc)) c
        = conv_at K w (mapSum (fst (update UT K w pieceColor x y b acc))) c"
  proof (cases "refreshed K (boardSize acc) (x, y) c")
    case True
    then show ?thesis by (subst update_mapAfterDWConv) simp
  next
    case False
    then have un: "\<not> affected K (boardSize acc) (x, y) (fst c + fst off, snd c + snd off)"
      if "off \<in> set offsets9" for off
      using that by (auto simp: refreshed_def list_ex_iff)
    have "mapAfterDWConv (fst (update UT K w pieceColor x y b acc)) c = mapAfterDWConv acc c"
      using False by (subst update_mapAfterDWConv) simp
    also have "\<dots> = conv_at K w (mapSum acc) c"
      by (rule conv_consistentD[OF assms])
    also have "\<dots> = conv_at K w (mapSum (fst (update UT K w pieceColor x y b acc))) c"
      by (rule conv_at_cong) (simp add: update_mapSum_unaffected[OF un])
    finally show ?thesis .
  qed
qed

lemma reachable_consistent: "reachable K w acc \<Longrightarrow> conv_consistent K w acc"
  by (induction rule: reachable.induct) (simp_all add: clear_consistent update_consistent)

lemma move_undo_mapAfterDWConv:
  assumes "conv_consistent K w acc"
  shows "mapAfterDWConv (fst (update UNDO K w pieceColor x y b' (fst (update MOVE K w pieceColor x y b acc))))
         = mapAfterDWConv acc"
proof (rule ext)
  fix c
  define acc1 where "acc1 = fst (update MOVE K w pieceColor x y b acc)"
  have n1: "boardSize acc1 = boardSize acc" by (simp add: acc1_def)
  have m2: "mapSum (fst (update UNDO K w pieceColor x y b' acc1)) = mapSum acc"
    unfolding acc1_def by (rule move_undo_mapSum)
  show "mapAfterDWConv (fst (update UNDO K w pieceColor x y b' (fst (update MOVE K w pieceColor x y b acc)))) c
        = mapAfterDWConv acc c"
  proof (cases "refreshed K (boardSize acc) (x, y) c")
    case True
    have "mapAfterDWConv (fst (update UNDO K w pieceColor x y b' acc1)) c = conv_at K w (mapSum acc) c"
      using True by (subst update_mapAfterDWConv) (simp add: n1 m2)
    also have "\<dots> = mapAfterDWConv acc c"
      by (rule conv_consistentD[OF assms, symmetric])
    finally show ?thesis by (simp only: acc1_def)
  next
    case False
    have "mapAfterDWConv (fst (update UNDO K w pieceColor x y b' acc1)) c = mapAfterDWConv acc1 c"
      using False by (subst update_mapAfterDWConv) (simp add: n1)
    also have "\<dots> = mapAfterDWConv acc c"
      unfolding acc1_def using False by (subst update_mapAfterDWConv) simp
    finally show ?thesis by (simp only: acc1_def)
  qed
qed

lemma move_undo_accumulator:
  assumes "conv_consistent K w acc"
  shows "fst (update UNDO K w pieceColor x y (snd (update MOVE K w pieceColor x y b acc))
                (fst (update MOVE K w pieceColor x y b acc))) = acc"
proof (rule Mix8Accumulator.equality)
  show "valueSum (fst (update UNDO K w pieceColor x y (snd (update MOVE K w pieceColor x y b acc))
                (fst (update MOVE K w pieceColor x y b acc)))) = valueSum acc"
    by (simp only: update_valueSum_UNDO update_valueSum_MOVE)
qed (simp_all add: move_undo_indexTable move_undo_mapSum move_undo_mapAfterDWConv[OF assms])


lemma of_set_side: "of_side side (set_side side v pair) = v"
  by (simp add: of_side_def set_side_def)

lemma set_set_side: "set_side side v (set_side side u pair) = set_side side v pair"
  by (simp add: set_side_def)

lemma set_of_side: "set_side side (of_side side pair) pair = pair"
  by (simp add: of_side_def set_side_def)

lemma sync_move:
  assumes "oldColor mc = EMPTY"
  shows "sync K w [mc] (acc, history) =
           Inr (fst (update MOVE K w (newColor mc) (sint (cache_x mc)) (sint (cache_y mc)) (\<lambda>k. 0) acc),
                history @ [valueSum acc])"
  using assms by (simp add: Let_def update_valueSum_MOVE)

lemma sync_undo:
  assumes "oldColor mc \<noteq> EMPTY"
  shows "sync K w [mc] (acc, history @ [saved]) =
           Inr (fst (update UNDO K w (oldColor mc) (sint (cache_x mc)) (sint (cache_y mc)) saved acc), history)"
  using assms by (simp add: Let_def)

lemma sint_int8: "- 128 \<le> k \<Longrightarrow> k < 128 \<Longrightarrow> sint (word_of_int k :: int8) = k"
  by (simp add: sint_sbintrunc' signed_take_bit_int_eq_self)

lemma flush_move_undo:
  assumes side: "side \<noteq> EMPTY" and stone: "sideToMove board \<noteq> EMPTY"
    and x: "- 128 \<le> fst pos" "fst pos < 128" and y: "- 128 \<le> snd pos" "snd pos < 128"
    and empty: "of_side side (moveCache ev) = []"
    and red: "reduced (fst (moveCache ev))" "reduced (snd (moveCache ev))"
    and cons: "conv_consistent K (of_side side (weight ev)) (of_side side (accumulator ev))"
  shows "\<exists>ev1. clearCache K side (beforeMove board pos ev) = Inr ev1
             \<and> clearCache K side (afterUndo board pos ev1) = Inr ev"
proof -
  define w where "w = of_side side (weight ev)"
  define acc where "acc = of_side side (accumulator ev)"
  define history where "history = of_side side (valueSumBoardHistory ev)"
  define col where "col = (if side = WHITE then opponent (sideToMove board) else sideToMove board)"
  define e where "e = \<lparr>oldColor = EMPTY, newColor = sideToMove board,
                        cache_x = word_of_int (fst pos) :: int8, cache_y = word_of_int (snd pos) :: int8\<rparr>"
  define e' where "e' = \<lparr>oldColor = sideToMove board, newColor = EMPTY,
                         cache_x = word_of_int (fst pos) :: int8, cache_y = word_of_int (snd pos) :: int8\<rparr>"
  define r where "r = side_relative side e"
  define r' where "r' = side_relative side e'"
  define acc1 where "acc1 = fst (update MOVE K w col (fst pos) (snd pos) (\<lambda>k. 0) acc)"
  define ev1 where "ev1 = ev\<lparr>accumulator := set_side side acc1 (accumulator ev),
                             moveCache := set_side side [] (push_or_cancel e (fst (moveCache ev)), push_or_cancel e (snd (moveCache ev))),
                             valueSumBoardHistory := set_side side (history @ [valueSum acc]) (valueSumBoardHistory ev)\<rparr>"
  have col: "col \<noteq> EMPTY"
    using stone by (cases "sideToMove board") (simp_all add: col_def opponent_def)
  have r: "oldColor r = EMPTY" "newColor r = col" "sint (cache_x r) = fst pos" "sint (cache_y r) = snd pos"
    using x y by (simp_all add: r_def e_def side_relative_def col_def opponent_def sint_int8)
  have r': "oldColor r' = col" "sint (cache_x r') = fst pos" "sint (cache_y r') = snd pos"
    using x y by (simp_all add: r'_def e'_def side_relative_def col_def opponent_def sint_int8)
  have c: "isContraryMove e' e" by (simp add: isContraryMove_def e_def e'_def)
  have pe: "push_or_cancel e [] = [e]" and pe': "push_or_cancel e' [] = [e']"
    by (simp_all add: push_or_cancel_def)
  have before: "beforeMove board pos ev
                  = ev\<lparr>moveCache := (push_or_cancel e (fst (moveCache ev)), push_or_cancel e (snd (moveCache ev)))\<rparr>"
    by (simp add: beforeMove_def addCache_def Let_def e_def)
  have cache1: "of_side side (push_or_cancel e (fst (moveCache ev)), push_or_cancel e (snd (moveCache ev))) = [e]"
    using empty pe by (auto simp: of_side_def split: if_splits)
  have s1: "sync K w [r] (acc, history) = Inr (acc1, history @ [valueSum acc])"
    using sync_move[of r K w acc history] r by (simp add: acc1_def)
  have 1: "clearCache K side (beforeMove board pos ev) = Inr ev1"
    using side s1
    by (simp add: clearCache_def before cache1 r_def[symmetric] w_def[symmetric] acc_def[symmetric]
        history_def[symmetric] ev1_def)
  have after: "afterUndo board pos ev1
                 = ev1\<lparr>moveCache := (push_or_cancel e' (fst (moveCache ev1)), push_or_cancel e' (snd (moveCache ev1)))\<rparr>"
    by (simp add: afterUndo_def addCache_def Let_def e'_def)
  have back1: "push_or_cancel e' (push_or_cancel e (fst (moveCache ev))) = fst (moveCache ev)"
    and back2: "push_or_cancel e' (push_or_cancel e (snd (moveCache ev))) = snd (moveCache ev)"
    using red by (simp_all add: push_or_cancel_pair[OF c])
  have cache2: "(push_or_cancel e' (fst (moveCache ev1)), push_or_cancel e' (snd (moveCache ev1)))
                  = set_side side [e'] (moveCache ev)"
    using empty pe' back1 back2
    by (auto simp: ev1_def set_side_def of_side_def split: if_splits)
  have s2: "sync K w [r'] (acc1, history @ [valueSum acc]) = Inr (acc, history)"
  proof -
    have "fst (update UNDO K w col (fst pos) (snd pos)
                 (snd (update MOVE K w col (fst pos) (snd pos) (\<lambda>k. 0) acc))
                 (fst (update MOVE K w col (fst pos) (snd pos) (\<lambda>k. 0) acc))) = acc"
      using cons by (intro move_undo_accumulator) (simp add: w_def acc_def)
    then have "fst (update UNDO K w col (fst pos) (snd pos) (valueSum acc) acc1) = acc"
      by (simp add: update_valueSum_MOVE acc1_def)
    then show ?thesis
      using sync_undo[of r' K w acc1 history "valueSum acc"] col r' by simp
  qed
  have a1: "set_side side acc (accumulator ev) = accumulator ev"
    unfolding acc_def by (rule set_of_side)
  have a2: "set_side side [] (moveCache ev) = moveCache ev"
    using set_of_side[of side "moveCache ev"] empty by simp
  have a3: "set_side side history (valueSumBoardHistory ev) = valueSumBoardHistory ev"
    unfolding history_def by (rule set_of_side)
  have sel: "weight ev1 = weight ev" "of_side side (accumulator ev1) = acc1"
    "of_side side (valueSumBoardHistory ev1) = history @ [valueSum acc]"
    by (simp_all add: ev1_def of_set_side)
  have 2: "clearCache K side (afterUndo board pos ev1) = Inr ev"
    using side s2
    by (simp add: clearCache_def after cache2 sel of_set_side r'_def[symmetric] w_def[symmetric])
       (simp add: ev1_def set_set_side a1 a2 a3)
  show ?thesis using 1 2 by blast
qed

lemma addCache_reduced:
  assumes "reduced (fst (moveCache ev))" and "reduced (snd (moveCache ev))"
  shows "reduced (fst (moveCache (addCache side x y isUndo ev)))"
    and "reduced (snd (moveCache (addCache side x y isUndo ev)))"
  using assms by (simp_all add: addCache_def Let_def push_or_cancel_reduced)

text \<open>
  Claim C7. With the accumulator and the move cache of the mix8 header and their operations as
  the specification describes them: for every state of an accumulator (every composition of
  updates since it was cleared), every colour and every cell, \<open>update<MOVE>\<close> followed at once
  by \<open>update<UNDO>\<close> of the same stone, which is handed the value sum that the move saved, gives
  back the accumulator, member by member; the value sum, the index table and the feature map come
  back from any content of the members whatever. A \<open>beforeMove\<close> followed by the \<open>afterUndo\<close> of
  the same cell, with no flush in between, gives back the evaluator as it was, for all caches
  that recording can produce; started on empty caches the caches are empty again, and neither
  notification touches an accumulator or the saved value sums.
\<close>

theorem make_undo_identity:
  "(\<forall>acc pieceColor x y b. reachable K w acc \<longrightarrow>
       fst (update UNDO K w pieceColor x y (snd (update MOVE K w pieceColor x y b acc))
              (fst (update MOVE K w pieceColor x y b acc))) = acc)
   \<and> (\<forall>acc pieceColor x y b.
         valueSum (fst (update UNDO K w pieceColor x y (snd (update MOVE K w pieceColor x y b acc))
              (fst (update MOVE K w pieceColor x y b acc)))) = valueSum acc
       \<and> indexTable (fst (update UNDO K w pieceColor x y (snd (update MOVE K w pieceColor x y b acc))
              (fst (update MOVE K w pieceColor x y b acc)))) = indexTable acc
       \<and> mapSum (fst (update UNDO K w pieceColor x y (snd (update MOVE K w pieceColor x y b acc))
              (fst (update MOVE K w pieceColor x y b acc)))) = mapSum acc)
   \<and> (\<forall>board pos (ev :: Mix8Evaluator).
         reduced (fst (moveCache ev)) \<and> reduced (snd (moveCache ev)) \<longrightarrow>
         afterUndo board pos (beforeMove board pos ev) = ev)
   \<and> (\<forall>board pos (ev :: Mix8Evaluator). moveCache ev = ([], []) \<longrightarrow>
         moveCache (afterUndo board pos (beforeMove board pos ev)) = ([], [])
         \<and> accumulator (beforeMove board pos ev) = accumulator ev
         \<and> valueSumBoardHistory (beforeMove board pos ev) = valueSumBoardHistory ev
         \<and> accumulator (afterUndo board pos (beforeMove board pos ev)) = accumulator ev
         \<and> valueSumBoardHistory (afterUndo board pos (beforeMove board pos ev)) = valueSumBoardHistory ev)"
proof (intro conjI allI impI)
  fix acc pieceColor x y b
  assume "reachable K w acc"
  then have "conv_consistent K w acc" by (rule reachable_consistent)
  then show "fst (update UNDO K w pieceColor x y (snd (update MOVE K w pieceColor x y b acc))
              (fst (update MOVE K w pieceColor x y b acc))) = acc"
    by (rule move_undo_accumulator)
next
  fix acc pieceColor x y b
  show "valueSum (fst (update UNDO K w pieceColor x y (snd (update MOVE K w pieceColor x y b acc))
              (fst (update MOVE K w pieceColor x y b acc)))) = valueSum acc"
    by (simp only: update_valueSum_UNDO update_valueSum_MOVE)
  show "indexTable (fst (update UNDO K w pieceColor x y (snd (update MOVE K w pieceColor x y b acc))
              (fst (update MOVE K w pieceColor x y b acc)))) = indexTable acc"
    by (rule move_undo_indexTable)
  show "mapSum (fst (update UNDO K w pieceColor x y (snd (update MOVE K w pieceColor x y b acc))
              (fst (update MOVE K w pieceColor x y b acc)))) = mapSum acc"
    by (rule move_undo_mapSum)
next
  fix board pos and ev :: Mix8Evaluator
  assume "reduced (fst (moveCache ev)) \<and> reduced (snd (moveCache ev))"
  then show "afterUndo board pos (beforeMove board pos ev) = ev"
    by (simp add: notify_roundtrip)
next
  fix board pos and ev :: Mix8Evaluator
  assume e: "moveCache ev = ([], [])"
  then have r: "afterUndo board pos (beforeMove board pos ev) = ev"
    by (intro notify_roundtrip) simp_all
  show "moveCache (afterUndo board pos (beforeMove board pos ev)) = ([], [])" using r e by simp
  show "accumulator (beforeMove board pos ev) = accumulator ev"
    by (simp add: beforeMove_def addCache_def Let_def)
  show "valueSumBoardHistory (beforeMove board pos ev) = valueSumBoardHistory ev"
    by (simp add: beforeMove_def addCache_def Let_def)
  show "accumulator (afterUndo board pos (beforeMove board pos ev)) = accumulator ev" using r by simp
  show "valueSumBoardHistory (afterUndo board pos (beforeMove board pos ev)) = valueSumBoardHistory ev"
    using r by simp
qed

lemma tiny_move_changes_index:
  "indexTable (fst (update MOVE tiny_kernels tiny_weight BLACK 1 1 (\<lambda>k. 0) tiny_accumulator)) (1, 1) 0 = 3"
  by (simp add: update_indexTable tiny_accumulator_def clear_def Let_def tiny_kernels_def
      on_board_def line_positions_def directions_def upt_conv_Cons numeral_3_eq_3)

theorem make_undo_identity_witness:
  "fst (update UNDO tiny_kernels tiny_weight BLACK 1 1
          (snd (update MOVE tiny_kernels tiny_weight BLACK 1 1 (\<lambda>k. 0) tiny_accumulator))
          (fst (update MOVE tiny_kernels tiny_weight BLACK 1 1 (\<lambda>k. 0) tiny_accumulator)))
     = tiny_accumulator
   \<and> indexTable (fst (update MOVE tiny_kernels tiny_weight BLACK 1 1 (\<lambda>k. 0) tiny_accumulator)) (1, 1) 0 = 3
   \<and> afterUndo \<lparr>sideToMove = BLACK\<rparr> (1, 1) (beforeMove \<lparr>sideToMove = BLACK\<rparr> (1, 1) tiny_evaluator)
     = tiny_evaluator
   \<and> moveCache (afterUndo \<lparr>sideToMove = BLACK\<rparr> (1, 1) (beforeMove \<lparr>sideToMove = BLACK\<rparr> (1, 1) tiny_evaluator))
     = ([], [])"
proof -
  have h1: "reachable tiny_kernels tiny_weight tiny_accumulator"
    unfolding tiny_accumulator_def by (rule reachable_clear)
  have h2: "reduced (fst (moveCache tiny_evaluator)) \<and> reduced (snd (moveCache tiny_evaluator))"
    by (simp add: tiny_evaluator_def)
  have h3: "moveCache tiny_evaluator = ([], [])"
    by (simp add: tiny_evaluator_def)
  note inst = make_undo_identity[of tiny_kernels tiny_weight]
  have A: "fst (update UNDO tiny_kernels tiny_weight BLACK 1 1
          (snd (update MOVE tiny_kernels tiny_weight BLACK 1 1 (\<lambda>k. 0) tiny_accumulator))
          (fst (update MOVE tiny_kernels tiny_weight BLACK 1 1 (\<lambda>k. 0) tiny_accumulator)))
     = tiny_accumulator"
    using inst h1 by blast
  have B: "afterUndo \<lparr>sideToMove = BLACK\<rparr> (1, 1) (beforeMove \<lparr>sideToMove = BLACK\<rparr> (1, 1) tiny_evaluator)
     = tiny_evaluator"
    using inst h2 by blast
  have C: "moveCache (afterUndo \<lparr>sideToMove = BLACK\<rparr> (1, 1) (beforeMove \<lparr>sideToMove = BLACK\<rparr> (1, 1) tiny_evaluator))
     = ([], [])"
    using inst h3 by blast
  show ?thesis by (rule conjI[OF A conjI[OF tiny_move_changes_index conjI[OF B C]]])
qed

section \<open>Facts about the rounding to binary32\<close>

lemma round_even_of_int [simp]: "round_even (of_int n) = n"
  by (simp add: round_even_def)

lemma round_even_bounds: "\<lfloor>x\<rfloor> \<le> round_even x" "round_even x \<le> \<lfloor>x\<rfloor> + 1"
  by (simp_all add: round_even_def Let_def)

lemma round_even_mono:
  assumes "x \<le> y"
  shows "round_even x \<le> round_even y"
proof (cases "\<lfloor>x\<rfloor> = \<lfloor>y\<rfloor>")
  case True
  then have "x - of_int \<lfloor>x\<rfloor> \<le> y - of_int \<lfloor>y\<rfloor>" using assms by simp
  with True show ?thesis by (auto simp: round_even_def Let_def)
next
  case False
  then have "\<lfloor>x\<rfloor> < \<lfloor>y\<rfloor>" using floor_mono[OF assms] by simp
  then have "\<lfloor>x\<rfloor> + 1 \<le> \<lfloor>y\<rfloor>" by simp
  with round_even_bounds(2)[of x] round_even_bounds(1)[of y] show ?thesis by linarith
qed

lemma f32_zero [simp]: "f32 0 = 0"
  by (simp add: f32_def)

lemma f32_nonneg:
  assumes "0 \<le> x"
  shows "0 \<le> f32 x"
proof (cases "x = 0")
  case True
  then show ?thesis by simp
next
  case False
  have "0 \<le> x / 2 powr of_int (ulp_exponent x)" using assms by simp
  then have "round_even 0 \<le> round_even (x / 2 powr of_int (ulp_exponent x))"
    by (rule round_even_mono)
  then have "0 \<le> round_even (x / 2 powr of_int (ulp_exponent x))"
    using round_even_of_int[of 0] by simp
  then show ?thesis using False by (simp add: f32_def)
qed

lemma log2_bounds:
  assumes "0 < x"
  shows "2 powr of_int \<lfloor>log 2 x\<rfloor> \<le> x" and "x < 2 powr (of_int \<lfloor>log 2 x\<rfloor> + 1)"
  using floor_log_eq_powr_iff[of x 2 "\<lfloor>log 2 x\<rfloor>"] assms by simp_all

lemma f32_mono_nonneg:
  assumes "0 \<le> x" and "x \<le> y"
  shows "f32 x \<le> f32 y"
proof (cases "x = 0")
  case True
  with assms f32_nonneg[of y] show ?thesis by simp
next
  case False
  then have x: "0 < x" and y: "0 < y" using assms by simp_all
  define kx where "kx = \<lfloor>log 2 x\<rfloor>"
  define ky where "ky = \<lfloor>log 2 y\<rfloor>"
  define ex where "ex = ulp_exponent x"
  define ey where "ey = ulp_exponent y"
  have ex: "ex = max (kx - 23) (- 149)" using x by (simp add: ex_def ulp_exponent_def kx_def)
  have ey: "ey = max (ky - 23) (- 149)" using y by (simp add: ey_def ulp_exponent_def ky_def)
  have "log 2 x \<le> log 2 y" using x assms by simp
  then have k: "kx \<le> ky" unfolding kx_def ky_def by (rule floor_mono)
  have fx: "f32 x = of_int (round_even (x / 2 powr of_int ex)) * 2 powr of_int ex"
    using x by (simp add: f32_def ex_def)
  have fy: "f32 y = of_int (round_even (y / 2 powr of_int ey)) * 2 powr of_int ey"
    using y by (simp add: f32_def ey_def)
  show ?thesis
  proof (cases "ex = ey")
    case True
    have "x / 2 powr of_int ex \<le> y / 2 powr of_int ex"
      using assms by (simp add: divide_right_mono)
    then have "round_even (x / 2 powr of_int ex) \<le> round_even (y / 2 powr of_int ex)"
      by (rule round_even_mono)
    then show ?thesis unfolding fx fy True[symmetric]
      by (simp add: mult_right_mono)
  next
    case False
    with ex ey k have lt: "ex < ey" by arith
    then have eyk: "ey = ky - 23" using ex ey by arith
    have exk: "kx - 23 \<le> ex" using ex by arith
    have step: "ex + 24 \<le> ky" using lt eyk by simp
    \<comment> \<open>lower bound for y\<close>
    have "2 powr of_int ky \<le> y" using log2_bounds(1)[OF y] by (simp add: ky_def)
    then have "2 powr of_int ky / 2 powr of_int ey \<le> y / 2 powr of_int ey"
      by (simp add: divide_right_mono)
    moreover have "2 powr of_int ky / 2 powr of_int ey = (2::real) powr 23"
      by (simp add: eyk flip: powr_diff)
    ultimately have "of_int 8388608 \<le> y / 2 powr of_int ey" by simp
    then have "round_even (of_int 8388608) \<le> round_even (y / 2 powr of_int ey)"
      by (rule round_even_mono)
    then have "8388608 \<le> round_even (y / 2 powr of_int ey)"
      by (simp only: round_even_of_int)
    then have "(8388608::real) \<le> of_int (round_even (y / 2 powr of_int ey))" by linarith
    then have "8388608 * 2 powr of_int ey \<le> f32 y"
      unfolding fy by (simp add: mult_right_mono)
    moreover have "8388608 * 2 powr of_int ey = (2::real) powr of_int ky"
    proof -
      have "(2::real) powr of_int ky = 2 powr (23 + of_int ey)" by (simp add: eyk)
      also have "\<dots> = 2 powr 23 * 2 powr of_int ey" by (rule powr_add)
      finally show ?thesis by simp
    qed
    ultimately have low: "2 powr of_int ky \<le> f32 y" by simp
    \<comment> \<open>upper bound for x\<close>
    have "x \<le> 2 powr (of_int kx + 1)" using log2_bounds(2)[OF x] by (simp add: kx_def)
    also have "\<dots> \<le> 2 powr (of_int ex + 24)" using exk by simp
    finally have "x \<le> 2 powr (of_int ex + 24)" .
    then have "x / 2 powr of_int ex \<le> 2 powr (of_int ex + 24) / 2 powr of_int ex"
      by (simp add: divide_right_mono)
    moreover have "2 powr (of_int ex + 24) / 2 powr of_int ex = (2::real) powr 24"
      by (simp flip: powr_diff)
    ultimately have "x / 2 powr of_int ex \<le> of_int 16777216" by simp
    then have "round_even (x / 2 powr of_int ex) \<le> round_even (of_int 16777216)"
      by (rule round_even_mono)
    then have "round_even (x / 2 powr of_int ex) \<le> 16777216"
      by (simp only: round_even_of_int)
    then have "of_int (round_even (x / 2 powr of_int ex)) \<le> (16777216::real)" by linarith
    then have "f32 x \<le> 16777216 * 2 powr of_int ex"
      unfolding fx by (simp add: mult_right_mono)
    moreover have "16777216 * 2 powr of_int ex = (2::real) powr (of_int ex + 24)"
    proof -
      have "(2::real) powr (of_int ex + 24) = 2 powr of_int ex * 2 powr 24" by (rule powr_add)
      then show ?thesis by simp
    qed
    moreover have "(2::real) powr (of_int ex + 24) \<le> 2 powr of_int ky"
      proof -
      have "of_int ex + (24::real) \<le> of_int ky" using step by linarith
      then show ?thesis by (intro powr_mono) simp_all
    qed
    ultimately show ?thesis using low by linarith
  qed
qed


lemma f32_exact:
  assumes "x / 2 powr of_int (ulp_exponent x) = of_int m"
  shows "f32 x = x"
proof (cases "x = 0")
  case True
  then show ?thesis by simp
next
  case False
  have "f32 x = of_int m * 2 powr of_int (ulp_exponent x)"
    using False by (simp add: f32_def assms)
  also have "\<dots> = x / 2 powr of_int (ulp_exponent x) * 2 powr of_int (ulp_exponent x)"
    by (simp only: assms)
  also have "\<dots> = x" by simp
  finally show ?thesis .
qed

lemma ulp_exponent_scaled:
  assumes "n \<noteq> 0"
  shows "ulp_exponent (of_int n * 2 powr of_int e) = max (\<lfloor>log 2 \<bar>of_int n\<bar>\<rfloor> + e - 23) (- 149)"
proof -
  have "\<bar>of_int n * 2 powr of_int e\<bar> = \<bar>of_int n :: real\<bar> * 2 powr of_int e"
    by (simp add: abs_mult)
  moreover have "log 2 (\<bar>of_int n :: real\<bar> * 2 powr of_int e) = log 2 \<bar>of_int n\<bar> + of_int e"
    using assms by (simp add: log_mult)
  moreover have "\<lfloor>log 2 \<bar>of_int n :: real\<bar> + of_int e\<rfloor> = \<lfloor>log 2 \<bar>of_int n :: real\<bar>\<rfloor> + e"
    by simp
  ultimately show ?thesis by (simp add: ulp_exponent_def)
qed

lemma powr_int_diff_is_int:
  assumes "e' \<le> e"
  shows "(2::real) powr of_int e / 2 powr of_int e' = of_int (2 ^ nat (e - e'))"
proof -
  have "(2::real) powr of_int e / 2 powr of_int e' = 2 powr (of_int e - of_int e')"
    by (simp add: powr_diff)
  also have "of_int e - of_int e' = real (nat (e - e'))" using assms by simp
  also have "(2::real) powr real (nat (e - e')) = 2 ^ nat (e - e')"
    by (simp add: powr_realpow)
  finally show ?thesis by simp
qed

lemma f32_representable:
  assumes n: "\<bar>n\<bar> \<le> 16777216" and e: "- 149 \<le> e"
  shows "f32 (of_int n * 2 powr of_int e) = of_int n * 2 powr of_int e"
proof (cases "n = 0")
  case True
  then show ?thesis by simp
next
  case False
  define x :: real where "x = of_int n * 2 powr of_int e"
  define e' where "e' = ulp_exponent x"
  have e': "e' = max (\<lfloor>log 2 \<bar>of_int n\<bar>\<rfloor> + e - 23) (- 149)"
    unfolding e'_def x_def using False by (rule ulp_exponent_scaled)
  have pos: "0 < \<bar>of_int n :: real\<bar>" using False by simp
  show ?thesis
  proof (cases "\<bar>n\<bar> = 16777216")
    case True
    then have "\<bar>of_int n :: real\<bar> = 16777216" by linarith
    moreover have "log 2 ((2::real) powr 24) = 24" by (intro log_powr_cancel) simp_all
    then have "log 2 (16777216::real) = 24" by simp
    ultimately have "log 2 \<bar>of_int n :: real\<bar> = 24" by simp
    then have e1: "e' = e + 1" using e' e by simp
    have "x / 2 powr of_int e' = of_int n * (2 powr of_int e / 2 powr (of_int e + 1))"
      by (simp add: x_def e1)
    also have "2 powr of_int e / 2 powr (of_int e + 1) = (1 / 2 :: real)"
      by (simp add: powr_add)
    also have "of_int n * (1 / 2 :: real) = of_int (n div 2)"
    proof -
      from True have "n = 16777216 \<or> n = - 16777216" by arith
      then show ?thesis by auto
    qed
    finally show ?thesis unfolding x_def[symmetric] e'_def by (rule f32_exact)
  next
    case lt: False
    with n have "\<bar>n\<bar> < 16777216" by simp
    then have "\<bar>of_int n :: real\<bar> < 16777216" by linarith
    then have "log 2 \<bar>of_int n :: real\<bar> < log 2 16777216" using pos by simp
    moreover have "log 2 ((2::real) powr 24) = 24" by (intro log_powr_cancel) simp_all
    then have "log 2 (16777216::real) = 24" by simp
    ultimately have "log 2 \<bar>of_int n :: real\<bar> < of_int 24" by simp
    then have "\<lfloor>log 2 \<bar>of_int n :: real\<bar>\<rfloor> < 24" by (simp only: floor_less_iff)
    then have le: "e' \<le> e" using e' e by arith
    have "x / 2 powr of_int e' = of_int n * (2 powr of_int e / 2 powr of_int e')"
      by (simp add: x_def)
    also have "\<dots> = of_int n * of_int (2 ^ nat (e - e'))"
      by (simp only: powr_int_diff_is_int[OF le])
    also have "\<dots> = of_int (n * 2 ^ nat (e - e'))" by simp
    finally show ?thesis unfolding x_def[symmetric] e'_def by (rule f32_exact)
  qed
qed


lemma round_even_abs_le:
  assumes "\<bar>z\<bar> \<le> of_int N"
  shows "\<bar>round_even z\<bar> \<le> N"
proof -
  have "z \<le> of_int N" "of_int (- N) \<le> z" using assms by simp_all
  then have "round_even z \<le> round_even (of_int N)" and "round_even (of_int (- N)) \<le> round_even z"
    by (simp_all only: round_even_mono)
  then have "round_even z \<le> N" and "- N \<le> round_even z" by (simp_all only: round_even_of_int)
  then show ?thesis by linarith
qed

lemma f32_idem: "f32 (f32 x) = f32 x"
proof (cases "x = 0")
  case True
  then show ?thesis by simp
next
  case False
  define k where "k = \<lfloor>log 2 \<bar>x\<bar>\<rfloor>"
  define e where "e = ulp_exponent x"
  have e: "e = max (k - 23) (- 149)" by (simp add: e_def k_def ulp_exponent_def)
  have e149: "- 149 \<le> e" and ek: "k - 23 \<le> e" using e by arith+
  have pos: "0 < \<bar>x\<bar>" using False by simp
  have "\<bar>x\<bar> \<le> 2 powr (of_int k + 1)" using log2_bounds(2)[OF pos] by (simp add: k_def)
  also have "\<dots> \<le> 2 powr (of_int e + 24)" using ek by simp
  finally have "\<bar>x\<bar> / 2 powr of_int e \<le> 2 powr (of_int e + 24) / 2 powr of_int e"
    by (simp add: divide_right_mono)
  moreover have "2 powr (of_int e + 24) / 2 powr of_int e = (2::real) powr 24"
    by (simp flip: powr_diff)
  ultimately have "\<bar>x / 2 powr of_int e\<bar> \<le> of_int 16777216" by simp
  then have n: "\<bar>round_even (x / 2 powr of_int e)\<bar> \<le> 16777216"
    by (rule round_even_abs_le)
  have fx: "f32 x = of_int (round_even (x / 2 powr of_int e)) * 2 powr of_int e"
    using False by (simp add: f32_def e_def)
  show ?thesis unfolding fx using n e149 by (rule f32_representable)
qed

lemma f32_eighth: "f32 (1 / 8) = 1 / 8"
  using f32_representable[of 1 "- 3"] by (simp add: powr_minus)

lemma f32_46: "f32 46 = 46"
  using f32_representable[of 46 0] by simp

lemma f32_3_36_normal: "f32 (84 / 25) = 14092861 / 4194304"
proof -
  have "\<lfloor>log 2 \<bar>84 / 25 :: real\<bar>\<rfloor> = 1"
    by (subst floor_log_eq_powr_iff) simp_all
  then have u: "ulp_exponent (84 / 25) = - 22" by (simp add: ulp_exponent_def)
  have p: "(2::real) powr of_int (- 22) = 1 / 4194304" by (simp add: powr_minus)
  have r: "round_even (84 / 25 / (1 / 4194304)) = 14092861"
    by (simp add: round_even_def Let_def)
  have "f32 (84 / 25) = of_int (round_even (84 / 25 / 2 powr of_int (- 22))) * 2 powr of_int (- 22)"
    by (simp add: f32_def u del: of_int_minus)
  also have "\<dots> = 14092861 / 4194304" by (simp only: p r)
  finally show ?thesis .
qed

lemma f32_3_36: "f32 (336 / 100) = 14092861 / 4194304"
  using f32_3_36_normal by simp

section \<open>Razoring margin\<close>

lemma f32_of_int: "\<bar>n\<bar> \<le> 16777216 \<Longrightarrow> f32 (of_int n) = of_int n"
  using f32_representable[of n 0] by simp

lemma f32_half: "f32 (1 / 2) = 1 / 2"
  using f32_representable[of 1 "- 1"] by (simp add: powr_minus)

lemma f32_threshold_le: "f32 (336 / 100) \<le> 336 / 100" and f32_threshold_lt4: "f32 (336 / 100) < 4"
  by (simp_all add: f32_3_36_normal)

text \<open>The rounded quadratic of \<open>razorMargin\<close>.\<close>

lemma razor_quadratic_mono:
  assumes "0 \<le> d1" and "d1 \<le> d2"
  shows "f32 (f32 (f32 (d1 / 8) * d1) + f32 (46 * d1)) \<le> f32 (f32 (f32 (d2 / 8) * d2) + f32 (46 * d2))"
proof -
  have d2: "0 \<le> d2" using assms by simp
  have a: "f32 (d1 / 8) \<le> f32 (d2 / 8)" using assms by (intro f32_mono_nonneg) simp_all
  have a0: "0 \<le> f32 (d1 / 8)" using assms by (intro f32_nonneg) simp
  have "f32 (d1 / 8) * d1 \<le> f32 (d2 / 8) * d2"
    using a a0 assms by (intro mult_mono) simp_all
  moreover have "0 \<le> f32 (d1 / 8) * d1" using a0 assms by simp
  ultimately have b: "f32 (f32 (d1 / 8) * d1) \<le> f32 (f32 (d2 / 8) * d2)"
    by (intro f32_mono_nonneg)
  have b0: "0 \<le> f32 (f32 (d1 / 8) * d1)" using a0 assms by (intro f32_nonneg) simp
  have c: "f32 (46 * d1) \<le> f32 (46 * d2)" using assms by (intro f32_mono_nonneg) simp_all
  have c0: "0 \<le> f32 (46 * d1)" using assms by (intro f32_nonneg) simp
  show ?thesis using b c b0 c0 by (intro f32_mono_nonneg) simp_all
qed

lemma razor_quadratic_bounds:
  assumes "0 \<le> d" and "d \<le> 4"
  shows "0 \<le> f32 (f32 (f32 (d / 8) * d) + f32 (46 * d))"
    and "f32 (f32 (f32 (d / 8) * d) + f32 (46 * d)) \<le> 186"
proof -
  have a0: "0 \<le> f32 (d / 8)" using assms by (intro f32_nonneg) simp
  have b0: "0 \<le> f32 (f32 (d / 8) * d)" using a0 assms by (intro f32_nonneg) simp
  have c0: "0 \<le> f32 (46 * d)" using assms by (intro f32_nonneg) simp
  show "0 \<le> f32 (f32 (f32 (d / 8) * d) + f32 (46 * d))"
    using b0 c0 by (intro f32_nonneg) simp
  have "f32 (f32 (f32 (d / 8) * d) + f32 (46 * d)) \<le> f32 (f32 (f32 (4 / 8) * 4) + f32 (46 * 4))"
    using assms by (rule razor_quadratic_mono)
  also have "\<dots> = 186"
    using f32_of_int[of 2] f32_of_int[of 184] f32_of_int[of 186] by (simp add: f32_half)
  finally show "f32 (f32 (f32 (d / 8) * d) + f32 (46 * d)) \<le> 186" .
qed

lemma razorMargin_below:
  assumes "0 \<le> d" and "d < f32 (336 / 100)"
  shows "sint (razorMargin d) = \<lfloor>f32 (f32 (f32 (d / 8) * d) + f32 (46 * d))\<rfloor> + 49"
    and "49 \<le> sint (razorMargin d)" and "sint (razorMargin d) \<le> 235"
proof -
  define q where "q = f32 (f32 (f32 (d / 8) * d) + f32 (46 * d))"
  have d4: "d \<le> 4" using assms f32_threshold_lt4 by simp
  have q: "0 \<le> q" "q \<le> 186" using razor_quadratic_bounds[OF assms(1) d4] by (simp_all add: q_def)
  have fl: "0 \<le> \<lfloor>q\<rfloor>" "\<lfloor>q\<rfloor> \<le> 186"
    using q floor_mono[of q 186] by simp_all
  have "razorMargin d = word_of_int (\<lfloor>q\<rfloor> + 49)"
    using assms(2) q(1) fl
    by (simp add: razorMargin_def f32_eighth f32_46 int_of_Depth_def q_def[symmetric])
  moreover have "sint (word_of_int (\<lfloor>q\<rfloor> + 49) :: int32) = \<lfloor>q\<rfloor> + 49"
    using fl by (intro sint_in32) simp_all
  ultimately show "sint (razorMargin d) = \<lfloor>f32 (f32 (f32 (d / 8) * d) + f32 (46 * d))\<rfloor> + 49"
    by (simp add: q_def)
  then show "49 \<le> sint (razorMargin d)" and "sint (razorMargin d) \<le> 235"
    using fl by (simp_all add: q_def)
qed

lemma razorMargin_above:
  assumes "f32 (336 / 100) \<le> d"
  shows "razorMargin d = MARGIN_INFINITE" and "sint (razorMargin d) = 32767"
  using assms by (simp_all add: razorMargin_def MARGIN_INFINITE_def)

text \<open>
  Claim C2. The numerals of the claim are the literals of the source: 3.36 is \<^verbatim>\<open>3.36f\<close>, the
  binary32 value \<open>14092861 / 4194304\<close>, just below the real number 3.36, and the quadratic is
  evaluated in binary32 arithmetic. For every depth at or above the threshold (hence for every
  real \<open>d \<ge> 3.36\<close>) \<open>razorMargin\<close> returns \<open>MARGIN_INFINITE\<close>; for every depth in \<open>[0, 3.36f)\<close> its
  value is \<open>max(int(0.125 * d * d + 46 * d) + 49, 0)\<close>, where the conversion to \<^verbatim>\<open>int\<close> is a floor
  because the rounded quadratic is not negative; and over the depths in \<open>[0, 3.36)\<close> the returned
  value is non-decreasing.
\<close>

theorem razorMargin_spec:
  "(\<forall>d. 336 / 100 \<le> d \<longrightarrow> razorMargin d = MARGIN_INFINITE)
   \<and> (\<forall>d. f32 (336 / 100) \<le> d \<longrightarrow> razorMargin d = MARGIN_INFINITE)
   \<and> (\<forall>d. 0 \<le> d \<and> d < f32 (336 / 100) \<longrightarrow>
         sint (razorMargin d) = max (\<lfloor>f32 (f32 (f32 (d / 8) * d) + f32 (46 * d))\<rfloor> + 49) 0)
   \<and> (\<forall>d1 d2. 0 \<le> d1 \<and> d1 \<le> d2 \<and> d2 < 336 / 100 \<longrightarrow>
         sint (razorMargin d1) \<le> sint (razorMargin d2))"
proof (intro conjI allI impI)
  fix d :: Depth
  assume "336 / 100 \<le> d"
  then have "f32 (336 / 100) \<le> d" using f32_threshold_le by linarith
  then show "razorMargin d = MARGIN_INFINITE" by (rule razorMargin_above)
next
  fix d :: Depth
  assume "f32 (336 / 100) \<le> d"
  then show "razorMargin d = MARGIN_INFINITE" by (rule razorMargin_above)
next
  fix d :: Depth
  assume h: "0 \<le> d \<and> d < f32 (336 / 100)"
  then have a: "0 \<le> d" and b: "d < f32 (336 / 100)" by blast+
  have "sint (razorMargin d) = \<lfloor>f32 (f32 (f32 (d / 8) * d) + f32 (46 * d))\<rfloor> + 49"
    "49 \<le> sint (razorMargin d)"
    using razorMargin_below[OF a b] by blast+
  then show "sint (razorMargin d) = max (\<lfloor>f32 (f32 (f32 (d / 8) * d) + f32 (46 * d))\<rfloor> + 49) 0"
    by linarith
next
  fix d1 d2 :: Depth
  assume h: "0 \<le> d1 \<and> d1 \<le> d2 \<and> d2 < 336 / 100"
  show "sint (razorMargin d1) \<le> sint (razorMargin d2)"
  proof (cases "d2 < f32 (336 / 100)")
    case True
    with h have d1: "0 \<le> d1" "d1 < f32 (336 / 100)" and d2: "0 \<le> d2" by simp_all
    have "\<lfloor>f32 (f32 (f32 (d1 / 8) * d1) + f32 (46 * d1))\<rfloor>
          \<le> \<lfloor>f32 (f32 (f32 (d2 / 8) * d2) + f32 (46 * d2))\<rfloor>"
      using h by (intro floor_mono razor_quadratic_mono) simp_all
    then show ?thesis
      using razorMargin_below(1)[OF d1] razorMargin_below(1)[OF d2 True] by simp
  next
    case False
    then have 2: "sint (razorMargin d2) = 32767" by (intro razorMargin_above) simp
    show ?thesis
    proof (cases "d1 < f32 (336 / 100)")
      case True
      with h razorMargin_below(3)[of d1] 2 show ?thesis by simp
    next
      case False
      then have "sint (razorMargin d1) = 32767" by (intro razorMargin_above) simp
      with 2 show ?thesis by simp
    qed
  qed
qed


lemma f32_dyadic8: "\<bar>n\<bar> \<le> 16777216 \<Longrightarrow> f32 (of_int n / 8) = of_int n / 8"
  using f32_representable[of n "- 3"] by (simp add: powr_minus)

lemma razorMargin_at_1: "sint (razorMargin 1) = 95"
proof -
  have "f32 (f32 (f32 (1 / 8) * 1) + f32 (46 * 1)) = f32 (f32 (f32 (1 / 8)) + f32 46)" by simp
  also have "\<dots> = f32 (1 / 8 + 46)" by (simp only: f32_eighth f32_46)
  also have "\<dots> = f32 (of_int 369 / 8)" by simp
  also have "\<dots> = of_int 369 / 8" by (rule f32_dyadic8) simp
  finally have q: "f32 (f32 (f32 (1 / 8) * 1) + f32 (46 * 1)) = of_int 369 / 8" .
  have "sint (razorMargin 1) = \<lfloor>f32 (f32 (f32 (1 / 8) * 1) + f32 (46 * 1))\<rfloor> + 49"
    by (rule razorMargin_below(1)) (simp_all add: f32_3_36_normal)
  also have "\<dots> = \<lfloor>of_int 369 / 8 :: real\<rfloor> + 49" by (simp only: q)
  also have "\<dots> = 95" by simp
  finally show ?thesis .
qed

lemma razorMargin_at_2: "sint (razorMargin 2) = 141"
proof -
  have "f32 (2 / 8) = f32 (of_int 2 / 8)" by simp
  also have "\<dots> = of_int 2 / 8" by (rule f32_dyadic8) simp
  finally have a: "f32 (2 / 8) = of_int 2 / 8" .
  have "f32 (of_int 2 / 8 * 2) = f32 (1 / 2)" by simp
  then have b: "f32 (of_int 2 / 8 * 2) = 1 / 2" by (simp only: f32_half)
  have "f32 (46 * 2) = f32 (of_int 92)" by simp
  also have "\<dots> = of_int 92" by (rule f32_of_int) simp
  finally have c: "f32 (46 * 2) = of_int 92" .
  have "f32 (1 / 2 + of_int 92) = f32 (of_int 740 / 8)" by simp
  also have "\<dots> = of_int 740 / 8" by (rule f32_dyadic8) simp
  finally have d: "f32 (1 / 2 + of_int 92) = of_int 740 / 8" .
  have q: "f32 (f32 (f32 (2 / 8) * 2) + f32 (46 * 2)) = of_int 740 / 8"
    by (simp only: a b c d)
  have "sint (razorMargin 2) = \<lfloor>f32 (f32 (f32 (2 / 8) * 2) + f32 (46 * 2))\<rfloor> + 49"
    by (rule razorMargin_below(1)) (simp_all add: f32_3_36_normal)
  also have "\<dots> = \<lfloor>of_int 740 / 8 :: real\<rfloor> + 49" by (simp only: q)
  also have "\<dots> = 141" by simp
  finally show ?thesis .
qed

theorem razorMargin_spec_witness:
  "((336 / 100 :: Depth) \<le> 4 \<and> razorMargin 4 = MARGIN_INFINITE)
   \<and> ((0 :: Depth) \<le> 1 \<and> (1 :: Depth) \<le> 2 \<and> (2 :: Depth) < 336 / 100
        \<and> sint (razorMargin 1) \<le> sint (razorMargin 2))
   \<and> (sint (razorMargin 1) = 95 \<and> sint (razorMargin 2) = 141)"
proof -
  have h1: "(336 / 100 :: Depth) \<le> 4" by simp
  have h2: "(0 :: Depth) \<le> 1 \<and> (1 :: Depth) \<le> 2 \<and> (2 :: Depth) < 336 / 100" by simp
  note inst = razorMargin_spec
  have A: "razorMargin 4 = MARGIN_INFINITE" using inst h1 by blast
  have B: "sint (razorMargin 1) \<le> sint (razorMargin 2)" using inst h2 by blast
  have C: "sint (razorMargin 1) = 95 \<and> sint (razorMargin 2) = 141"
    by (simp only: razorMargin_at_1 razorMargin_at_2)
  show ?thesis by (rule conjI[OF conjI[OF h1 A] conjI[OF conjI[OF conjunct1[OF h2] conjI[OF conjunct1[OF conjunct2[OF h2]] conjI[OF conjunct2[OF conjunct2[OF h2]] B]]] C]])
qed

section \<open>Late move reduction\<close>

text \<open>
  Claim C5. For every depth \<open>d > 0\<close> whose integer part indexes inside the table and every
  \<open>moveCount\<close> with \<open>0 < moveCount < lut.size()\<close>, both assertions pass, and with the base
  reduction \<open>r = lut[int(d)] * lut[moveCount]\<close>: at a principal-variation node (and a nonzero
  \<open>rootDelta\<close>) the result is \<open>max(r - delta / rootDelta, 0)\<close>; at any other node it is \<open>r + 1\<close>
  exactly when \<open>improvement \<le> 0\<close> and \<open>r > 1\<close>, and \<open>r\<close> itself otherwise. All operations are the
  binary32 operations of the source; adding the \<^verbatim>\<open>float\<close> zero to \<open>r\<close> gives \<open>r\<close> because \<open>r\<close> is a
  binary32 value.
\<close>

theorem reduction_spec:
  assumes d: "0 < d" and mc: "0 < moveCount" "moveCount < int (length lut)"
    and idx: "nat (int_of_Depth d) < length lut"
  shows "(rootDelta \<noteq> 0 \<longrightarrow>
            reduction True lut d moveCount improvement delta rootDelta =
              (let r = f32 (lut ! nat (int_of_Depth d) * lut ! nat moveCount)
               in Inr (max (f32 (r - f32 (f32 (of_int (sint delta)) / f32 (of_int (sint rootDelta))))) 0)))
       \<and> reduction False lut d moveCount improvement delta rootDelta =
              (let r = f32 (lut ! nat (int_of_Depth d) * lut ! nat moveCount)
               in Inr (if improvement \<le> 0 \<and> 1 < r then f32 (r + 1) else r))"
proof -
  define r where "r = f32 (lut ! nat (int_of_Depth d) * lut ! nat moveCount)"
  have rr: "f32 r = r" unfolding r_def by (rule f32_idem)
  have pv: "reduction True lut d moveCount improvement delta rootDelta =
              Inr (max (f32 (r - f32 (f32 (of_int (sint delta)) / f32 (of_int (sint rootDelta))))) 0)"
    if "rootDelta \<noteq> 0"
    using that d mc idx by (simp add: reduction_def r_def)
  have npv: "reduction False lut d moveCount improvement delta rootDelta =
               Inr (if improvement \<le> 0 \<and> 1 < r then f32 (r + 1) else r)"
    using d mc idx rr by (simp add: reduction_def r_def[symmetric])
  show ?thesis using pv npv by (simp add: r_def Let_def)
qed

theorem reduction_spec_witness:
  "((0 :: Depth) < 5 / 2 \<and> (0 :: int) < 3 \<and> (3 :: int) < int (length [0, 1 / 2, 3 / 2, 2 :: Depth])
      \<and> nat (int_of_Depth (5 / 2)) < length [0, 1 / 2, 3 / 2, 2 :: Depth] \<and> (2 :: Value) \<noteq> 0)
   \<and> reduction True [0, 1 / 2, 3 / 2, 2] (5 / 2) 3 0 1 2 = Inr (5 / 2)
   \<and> reduction False [0, 1 / 2, 3 / 2, 2] (5 / 2) 3 0 1 2 = Inr 4
   \<and> reduction False [0, 1 / 2, 3 / 2, 2] (5 / 2) 3 1 1 2 = Inr 3"
proof -
  have h: "(0 :: Depth) < 5 / 2" "(0 :: int) < 3" "(3 :: int) < int (length [0, 1 / 2, 3 / 2, 2 :: Depth])"
    "nat (int_of_Depth (5 / 2)) < length [0, 1 / 2, 3 / 2, 2 :: Depth]"
    by (simp_all add: int_of_Depth_def)
  have nz: "(2 :: Value) \<noteq> 0" by simp
  have i: "nat (int_of_Depth (5 / 2)) = 2" by (simp add: int_of_Depth_def)
  have f3: "f32 3 = 3" using f32_of_int[of 3] by simp
  have f1: "f32 1 = 1" using f32_of_int[of 1] by simp
  have f2: "f32 2 = 2" using f32_of_int[of 2] by simp
  have f4: "f32 4 = 4" using f32_of_int[of 4] by simp
  have f52: "f32 (5 / 2) = 5 / 2"
  proof -
    have "f32 (5 / 2) = f32 (of_int 20 / 8)" by simp
    also have "\<dots> = of_int 20 / 8" by (rule f32_dyadic8) simp
    finally show ?thesis by simp
  qed
  have r: "f32 ([0, 1 / 2, 3 / 2, 2 :: Depth] ! 2 * [0, 1 / 2, 3 / 2, 2] ! nat 3) = 3"
    by (simp add: f3 numeral_3_eq_3)
  note inst = reduction_spec[OF h, of 2 _ 1]
  have A: "reduction True [0, 1 / 2, 3 / 2, 2] (5 / 2) 3 0 1 2 = Inr (5 / 2)"
    using inst[of 0] nz by (simp add: i r f1 f2 f3 f4 f52 f32_half Let_def)
  have B: "reduction False [0, 1 / 2, 3 / 2, 2] (5 / 2) 3 0 1 2 = Inr 4"
    using inst[of 0] by (simp add: i r f3 f4 Let_def)
  have C: "reduction False [0, 1 / 2, 3 / 2, 2] (5 / 2) 3 1 1 2 = Inr 3"
    using inst[of 1] by (simp add: i r f3 Let_def)
  show ?thesis using h nz A B C by blast
qed

end
